theory Spec2Isabelle
  imports Main
begin

section \<open>Tetrois: a shallow embedding of the game core\<close>

text \<open>
  The development follows \<^verbatim>\<open>src/tetrois.cpp\<close> (the ncurses build). The raw-ANSI build
  \<^verbatim>\<open>src/tetrois_leagacy.cpp\<close> has the same \<^verbatim>\<open>Position\<close>, \<^verbatim>\<open>Tetromino\<close>
  and \<^verbatim>\<open>Tetris\<close> code, with a colour string where this build has a colour pair number;
  the one place where its control flow differs (the wall kick) is embedded separately below.

  C++ \<^verbatim>\<open>int\<close> is modelled by \<^typ>\<open>int\<close>: signed overflow is undefined behaviour
  in C++, so there is no wrap-around to write out, and the coordinates, counters and scores of
  a game stay far from the 32-bit limits. What C++ leaves undefined on containers (an index
  outside a \<^verbatim>\<open>std::vector\<close> or an array) is an explicit error value of the model, and
  a loop that may run forever returns \<^term>\<open>None\<close>.
\<close>

subsection \<open>Errors\<close>

datatype error =
  OutOfRange  \<comment> \<open>an index outside a vector or an array\<close>
  | BadAlloc  \<comment> \<open>a vector constructed with a negative element count\<close>

definition bindE :: "error + 'a \<Rightarrow> ('a \<Rightarrow> error + 'b) \<Rightarrow> error + 'b" where
  "bindE m f = (case m of Inl e \<Rightarrow> Inl e | Inr v \<Rightarrow> f v)"

subsection \<open>Position and Tetromino\<close>

text \<open>\<^verbatim>\<open>struct Position { int x; int y; }\<close> with its \<^verbatim>\<open>operator+\<close>.\<close>

datatype Position = Position (pos_x: int) (pos_y: int)

definition pos_add :: "Position \<Rightarrow> Position \<Rightarrow> Position" where
  "pos_add p q = Position (pos_x p + pos_x q) (pos_y p + pos_y q)"

definition VEC_DOWN :: Position where "VEC_DOWN = Position 0 1"
definition VEC_LEFT :: Position where "VEC_LEFT = Position (- 1) 0"
definition VEC_RIGHT :: Position where "VEC_RIGHT = Position 1 0"

record Tetromino =
  blocks :: "Position list"
  colorPair :: int
  shapeIdx :: int

text \<open>\<^verbatim>\<open>Tetromino::move\<close>: every block is replaced by block + direction.\<close>

definition move :: "Tetromino \<Rightarrow> Position \<Rightarrow> Tetromino" where
  "move t direction = t\<lparr>blocks := map (\<lambda>block. pos_add block direction) (blocks t)\<rparr>"

text \<open>
  \<^verbatim>\<open>Tetromino::rotate\<close>: returns at once for shape 0; otherwise \<^verbatim>\<open>center\<close> is a copy
  of \<^verbatim>\<open>blocks[0]\<close> (undefined on an empty vector) and every block is rewritten from its
  offset to that copy.
\<close>

definition rotate_block :: "Position \<Rightarrow> Position \<Rightarrow> Position" where
  "rotate_block center block =
     (let rel_x = pos_x block - pos_x center;
          rel_y = pos_y block - pos_y center
      in Position (pos_x center - rel_y) (pos_y center + rel_x))"

definition rotateT :: "Tetromino \<Rightarrow> error + Tetromino" where
  "rotateT t =
     (if shapeIdx t = 0 then Inr t
      else (case blocks t of
              [] \<Rightarrow> Inl OutOfRange
            | center # _ \<Rightarrow> Inr (t\<lparr>blocks := map (rotate_block center) (blocks t)\<rparr>)))"

subsection \<open>Board\<close>

record Block =
  cellColor :: int  \<comment> \<open>\<^verbatim>\<open>Block::colorPair\<close>\<close>
  occupied :: bool

definition emptyBlock :: Block where
  "emptyBlock = \<lparr>cellColor = 0, occupied = False\<rparr>"

record Tetris =
  rows :: int
  cols :: int
  grid :: "Block list"

text \<open>
  The constructor \<^verbatim>\<open>Tetris(rows, cols)\<close> builds \<^verbatim>\<open>grid(rows * cols)\<close>; a negative count
  converts to a huge \<^verbatim>\<open>size_t\<close> and the allocation throws.
\<close>

definition new_grid :: "int \<Rightarrow> error + Block list" where
  "new_grid n = (if n < 0 then Inl BadAlloc else Inr (replicate (nat n) emptyBlock))"

definition newTetris :: "int \<Rightarrow> int \<Rightarrow> error + Tetris" where
  "newTetris r c = bindE (new_grid (r * c)) (\<lambda>g. Inr \<lparr>rows = r, cols = c, grid = g\<rparr>)"

text \<open>Reading and writing \<^verbatim>\<open>grid[i]\<close>: defined only inside the vector.\<close>

definition grid_get :: "Block list \<Rightarrow> int \<Rightarrow> error + Block" where
  "grid_get g i = (if 0 \<le> i \<and> i < int (length g) then Inr (g ! nat i) else Inl OutOfRange)"

definition grid_set :: "Block list \<Rightarrow> int \<Rightarrow> Block \<Rightarrow> error + Block list" where
  "grid_set g i b = (if 0 \<le> i \<and> i < int (length g) then Inr (g[nat i := b]) else Inl OutOfRange)"

definition isInside :: "Tetris \<Rightarrow> Position \<Rightarrow> bool" where
  "isInside g p \<longleftrightarrow> pos_x p \<ge> 0 \<and> pos_x p < cols g \<and> pos_y p \<ge> 0 \<and> pos_y p < rows g"

definition isOccupied :: "Tetris \<Rightarrow> Position \<Rightarrow> error + bool" where
  "isOccupied g p =
     (if \<not> isInside g p then Inr True
      else bindE (grid_get (grid g) (pos_y p * cols g + pos_x p)) (\<lambda>c. Inr (occupied c)))"

text \<open>\<^verbatim>\<open>checkCollision\<close>: the loop over the blocks returns at the first occupied one.\<close>

fun checkCollision_blocks :: "Tetris \<Rightarrow> Position list \<Rightarrow> error + bool" where
  "checkCollision_blocks g [] = Inr False"
| "checkCollision_blocks g (b # bs) =
     bindE (isOccupied g b) (\<lambda>occ. if occ then Inr True else checkCollision_blocks g bs)"

definition checkCollision :: "Tetris \<Rightarrow> Tetromino \<Rightarrow> error + bool" where
  "checkCollision g t = checkCollision_blocks g (blocks t)"

text \<open>\<^verbatim>\<open>lockTetromino\<close>: blocks outside the board are skipped, the others are written.\<close>

fun lock_blocks :: "Tetris \<Rightarrow> int \<Rightarrow> Position list \<Rightarrow> error + Tetris" where
  "lock_blocks g cp [] = Inr g"
| "lock_blocks g cp (b # bs) =
     (if \<not> isInside g b then lock_blocks g cp bs
      else bindE (grid_set (grid g) (pos_y b * cols g + pos_x b) \<lparr>cellColor = cp, occupied = True\<rparr>)
             (\<lambda>gr. lock_blocks (g\<lparr>grid := gr\<rparr>) cp bs))"

definition lockTetromino :: "Tetris \<Rightarrow> Tetromino \<Rightarrow> error + Tetris" where
  "lockTetromino g t = lock_blocks g (colorPair t) (blocks t)"

text \<open>
  \<^verbatim>\<open>clearLines\<close>, first loop: for each row the inner loop over the columns breaks at the
  first free cell; the full rows are pushed onto \<^verbatim>\<open>linesToClear\<close> in increasing order.
\<close>

fun row_full_from :: "Tetris \<Rightarrow> int \<Rightarrow> int list \<Rightarrow> error + bool" where
  "row_full_from g y [] = Inr True"
| "row_full_from g y (x # xs) =
     bindE (grid_get (grid g) (y * cols g + x))
       (\<lambda>c. if \<not> occupied c then Inr False else row_full_from g y xs)"

definition row_full :: "Tetris \<Rightarrow> int \<Rightarrow> error + bool" where
  "row_full g y = row_full_from g y [0 .. cols g - 1]"

fun scan_rows :: "Tetris \<Rightarrow> int list \<Rightarrow> int list \<Rightarrow> error + int list" where
  "scan_rows g [] linesToClear = Inr linesToClear"
| "scan_rows g (y # ys) linesToClear =
     bindE (row_full g y)
       (\<lambda>full. scan_rows g ys (if full then linesToClear @ [y] else linesToClear))"

text \<open>
  Second loop: \<^verbatim>\<open>y\<close> runs from \<^verbatim>\<open>rows - 1\<close> down to 0; a row of \<^verbatim>\<open>linesToClear\<close> is
  skipped, any other row is copied cell by cell to row \<^verbatim>\<open>targetY\<close> of \<^verbatim>\<open>newGrid\<close>, and
  \<^verbatim>\<open>targetY\<close> is decremented.
\<close>

fun copy_row :: "Tetris \<Rightarrow> int \<Rightarrow> int \<Rightarrow> int list \<Rightarrow> Block list \<Rightarrow> error + Block list" where
  "copy_row g y targetY [] newGrid = Inr newGrid"
| "copy_row g y targetY (x # xs) newGrid =
     bindE (grid_get (grid g) (y * cols g + x))
       (\<lambda>c. bindE (grid_set newGrid (targetY * cols g + x) c)
              (\<lambda>ng. copy_row g y targetY xs ng))"

fun compact_rows :: "Tetris \<Rightarrow> int list \<Rightarrow> int list \<Rightarrow> int \<Rightarrow> Block list \<Rightarrow> error + Block list" where
  "compact_rows g linesToClear [] targetY newGrid = Inr newGrid"
| "compact_rows g linesToClear (y # ys) targetY newGrid =
     (if y \<in> set linesToClear then compact_rows g linesToClear ys targetY newGrid
      else bindE (copy_row g y targetY [0 .. cols g - 1] newGrid)
             (\<lambda>ng. compact_rows g linesToClear ys (targetY - 1) ng))"

definition clearLines :: "Tetris \<Rightarrow> error + (int \<times> Tetris)" where
  "clearLines g =
     bindE (scan_rows g [0 .. rows g - 1] [])
       (\<lambda>linesToClear.
          if linesToClear = [] then Inr (0, g)
          else bindE (new_grid (rows g * cols g))
                 (\<lambda>newGrid.
                    bindE (compact_rows g linesToClear (rev [0 .. rows g - 1]) (rows g - 1) newGrid)
                      (\<lambda>ng. Inr (int (length linesToClear), g\<lparr>grid := ng\<rparr>))))"

text \<open>
  \<^verbatim>\<open>getGhost\<close>: the piece is moved down while it does not collide, then one step up.
  Nothing in the code bounds the loop.
\<close>

partial_function (option) ghost_loop :: "Tetris \<Rightarrow> Tetromino \<Rightarrow> (error + Tetromino) option" where
  "ghost_loop g t =
     (case checkCollision g t of
        Inl e \<Rightarrow> Some (Inl e)
      | Inr hit \<Rightarrow> if hit then Some (Inr t) else ghost_loop g (move t VEC_DOWN))"

definition getGhost :: "Tetris \<Rightarrow> Tetromino \<Rightarrow> (error + Tetromino) option" where
  "getGhost g t = map_option (map_sum id (\<lambda>t'. move t' (Position 0 (- 1)))) (ghost_loop g t)"

subsection \<open>The game loop\<close>

text \<open>
  The key codes compared with \<^verbatim>\<open>ch\<close>: the characters \<^verbatim>\<open>q a d s w\<close> and space, and the
  values \<^verbatim>\<open>ncurses.h\<close> gives \<^verbatim>\<open>ERR\<close> and the arrow keys.
\<close>

definition ERR :: int where "ERR = - 1"
definition KEY_DOWN :: int where "KEY_DOWN = 258"
definition KEY_UP :: int where "KEY_UP = 259"
definition KEY_LEFT :: int where "KEY_LEFT = 260"
definition KEY_RIGHT :: int where "KEY_RIGHT = 261"
definition CH_q :: int where "CH_q = 113"
definition CH_a :: int where "CH_a = 97"
definition CH_d :: int where "CH_d = 100"
definition CH_s :: int where "CH_s = 115"
definition CH_w :: int where "CH_w = 119"
definition CH_space :: int where "CH_space = 32"

text \<open>
  C++ integer division truncates towards zero. Clock readings of
  \<^verbatim>\<open>steady_clock\<close> are counted in nanoseconds; \<^verbatim>\<open>duration_cast<milliseconds>\<close>
  truncates.
\<close>

definition tdiv :: "int \<Rightarrow> int \<Rightarrow> int" where
  "tdiv a b = sgn a * sgn b * (\<bar>a\<bar> div \<bar>b\<bar>)"

definition to_ms :: "int \<Rightarrow> int" where
  "to_ms d = tdiv d 1000000"

definition seconds :: "int \<Rightarrow> int" where
  "seconds n = n * 1000000000"

record game_state =
  game :: Tetris
  gameOver :: bool
  score :: int
  level :: int
  totalLines :: int
  highscore :: int
  tetromino :: Tetromino
  nextT :: Tetromino
  nextIdx :: int
  lastDrop :: int
  dropIntervalMs :: int

definition lineScores :: "int list" where
  "lineScores = [0, 40, 100, 300, 1200]"

definition lineScores_at :: "int \<Rightarrow> error + int" where
  "lineScores_at i =
     (if 0 \<le> i \<and> i < int (length lineScores) then Inr (lineScores ! nat i) else Inl OutOfRange)"

definition shapes :: "Position list list" where
  "shapes =
     [[Position 4 0, Position 5 0, Position 4 1, Position 5 1],
      [Position 3 0, Position 4 0, Position 5 0, Position 6 0],
      [Position 5 0, Position 6 0, Position 4 1, Position 5 1],
      [Position 4 0, Position 5 0, Position 5 1, Position 6 1],
      [Position 4 0, Position 5 0, Position 6 0, Position 5 1],
      [Position 4 0, Position 5 0, Position 6 0, Position 4 1],
      [Position 4 0, Position 5 0, Position 6 0, Position 6 1]]"

definition PAIR_PIECE_BASE :: int where "PAIR_PIECE_BASE = 10"

text \<open>
  \<^verbatim>\<open>getNewTetromino\<close>; the argument is the value \<^verbatim>\<open>rand()\<close> returns, which is never
  negative.
\<close>

definition getNewTetromino :: "nat \<Rightarrow> int \<times> Tetromino" where
  "getNewTetromino r =
     (let idx = r mod length shapes
      in (int idx, \<lparr>blocks = shapes ! idx, colorPair = PAIR_PIECE_BASE + int idx, shapeIdx = int idx\<rparr>))"

text \<open>
  The Left, Right and Down branches: \<^verbatim>\<open>temp\<close> is the active piece moved, committed when it
  does not collide.
\<close>

definition translate_input :: "game_state \<Rightarrow> Position \<Rightarrow> error + game_state" where
  "translate_input s direction =
     (let temp = move (tetromino s) direction
      in bindE (checkCollision (game s) temp)
           (\<lambda>hit. Inr (if \<not> hit then s\<lparr>tetromino := temp\<rparr> else s)))"

text \<open>The Rotate branch of \<^verbatim>\<open>tetrois.cpp\<close>: each kick starts again from \<^verbatim>\<open>temp\<close>.\<close>

definition rotate_input :: "game_state \<Rightarrow> error + game_state" where
  "rotate_input s =
     bindE (rotateT (tetromino s))
       (\<lambda>temp. bindE (checkCollision (game s) temp)
          (\<lambda>hit. if \<not> hit then Inr (s\<lparr>tetromino := temp\<rparr>)
             else (let kicked = move temp VEC_RIGHT
                   in bindE (checkCollision (game s) kicked)
                        (\<lambda>hit1. if \<not> hit1 then Inr (s\<lparr>tetromino := kicked\<rparr>)
                           else (let kicked2 = move (move temp VEC_LEFT) VEC_LEFT
                                 in bindE (checkCollision (game s) kicked2)
                                      (\<lambda>hit2. Inr (if \<not> hit2 then s\<lparr>tetromino := kicked2\<rparr> else s)))))))"

text \<open>
  The Rotate branch of \<^verbatim>\<open>tetrois_leagacy.cpp\<close>: \<^verbatim>\<open>temp\<close> itself is moved right, and then
  moved left twice from there.
\<close>

definition rotate_input_legacy :: "game_state \<Rightarrow> error + game_state" where
  "rotate_input_legacy s =
     bindE (rotateT (tetromino s))
       (\<lambda>temp. bindE (checkCollision (game s) temp)
          (\<lambda>hit. if \<not> hit then Inr (s\<lparr>tetromino := temp\<rparr>)
             else (let temp1 = move temp VEC_RIGHT
                   in bindE (checkCollision (game s) temp1)
                        (\<lambda>hit1. if \<not> hit1 then Inr (s\<lparr>tetromino := temp1\<rparr>)
                           else (let temp2 = move (move temp1 VEC_LEFT) VEC_LEFT
                                 in bindE (checkCollision (game s) temp2)
                                      (\<lambda>hit2. Inr (if \<not> hit2 then s\<lparr>tetromino := temp2\<rparr> else s)))))))"

text \<open>
  The hard drop: the loop moves the active piece itself; afterwards one step up, and
  \<^verbatim>\<open>lastDrop\<close> is the clock reading minus ten seconds.
\<close>

partial_function (option) drop_loop :: "game_state \<Rightarrow> (error + game_state) option" where
  "drop_loop s =
     (case checkCollision (game s) (tetromino s) of
        Inl e \<Rightarrow> Some (Inl e)
      | Inr hit \<Rightarrow> if hit then Some (Inr s)
                   else drop_loop (s\<lparr>tetromino := move (tetromino s) VEC_DOWN\<rparr>))"

definition hard_drop :: "game_state \<Rightarrow> int \<Rightarrow> (error + game_state) option" where
  "hard_drop s clock =
     map_option
       (map_sum id (\<lambda>s'. s'\<lparr>tetromino := move (tetromino s') (Position 0 (- 1)),
                            lastDrop := clock - seconds 10\<rparr>))
       (drop_loop s)"

text \<open>
  Input dispatch for one iteration; \<^verbatim>\<open>ch\<close> is what \<^verbatim>\<open>getch()\<close> returned and
  \<^verbatim>\<open>clock\<close> what \<^verbatim>\<open>steady_clock::now()\<close> returns in the hard-drop branch.
\<close>

definition handle_input :: "game_state \<Rightarrow> int \<Rightarrow> int \<Rightarrow> (error + game_state) option" where
  "handle_input s ch clock =
     (if ch \<noteq> ERR then
        (if ch = CH_q then Some (Inr (s\<lparr>gameOver := True\<rparr>))
         else if ch = CH_a \<or> ch = KEY_LEFT then Some (translate_input s VEC_LEFT)
         else if ch = CH_d \<or> ch = KEY_RIGHT then Some (translate_input s VEC_RIGHT)
         else if ch = CH_s \<or> ch = KEY_DOWN then Some (translate_input s VEC_DOWN)
         else if ch = CH_w \<or> ch = KEY_UP then Some (rotate_input s)
         else if ch = CH_space then hard_drop s clock
         else Some (Inr s))
      else Some (Inr s))"

text \<open>The score update of a lock event that cleared \<^verbatim>\<open>cleared > 0\<close> rows.\<close>

definition update_score :: "game_state \<Rightarrow> int \<Rightarrow> error + game_state" where
  "update_score s cleared =
     bindE (lineScores_at cleared)
       (\<lambda>ls. let score' = score s + ls * level s;
                  totalLines' = totalLines s + cleared;
                  level' = tdiv totalLines' 10 + 1;
                  dropIntervalMs' = max 100 (800 - level' * 50);
                  highscore' = (if score' > highscore s then score' else highscore s)
              in Inr (s\<lparr>score := score', totalLines := totalLines', level := level',
                         dropIntervalMs := dropIntervalMs', highscore := highscore'\<rparr>))"

text \<open>
  The lock branch of the gravity step: lock, clear, score, promote the next piece, draw a
  new one, and end the game when the promoted piece collides.
\<close>

definition lock_event :: "game_state \<Rightarrow> nat \<Rightarrow> error + game_state" where
  "lock_event s r =
     bindE (lockTetromino (game s) (tetromino s))
       (\<lambda>g1. bindE (clearLines g1)
          (\<lambda>(cleared, g2).
             bindE (if cleared > 0 then update_score s cleared else Inr s)
               (\<lambda>s1. let (idx, fresh) = getNewTetromino r;
                          s2 = s1\<lparr>game := g2, tetromino := nextT s1, nextT := fresh, nextIdx := idx\<rparr>
                      in bindE (checkCollision (game s2) (tetromino s2))
                           (\<lambda>hit. Inr (if hit then s2\<lparr>gameOver := True\<rparr> else s2)))))"

definition gravity :: "game_state \<Rightarrow> int \<Rightarrow> nat \<Rightarrow> error + game_state" where
  "gravity s now r =
     (if to_ms (now - lastDrop s) > dropIntervalMs s then
        (let temp = move (tetromino s) VEC_DOWN
         in bindE (checkCollision (game s) temp)
              (\<lambda>hit. bindE (if \<not> hit then Inr (s\<lparr>tetromino := temp\<rparr>) else lock_event s r)
                 (\<lambda>s'. Inr (s'\<lparr>lastDrop := now\<rparr>))))
      else Inr s)"

text \<open>
  What one iteration of \<^verbatim>\<open>while (!gameOver)\<close> reads from outside: the key, the clock in
  the hard-drop branch, the clock before the gravity check, and the value of \<^verbatim>\<open>rand()\<close>
  should a piece be drawn. Rendering and sleeping do not change the state.
\<close>

record input =
  in_ch :: int
  in_clock_key :: int
  in_clock :: int
  in_rand :: nat

definition step :: "game_state \<Rightarrow> input \<Rightarrow> (error + game_state) option" where
  "step s i =
     (case handle_input s (in_ch i) (in_clock_key i) of
        None \<Rightarrow> None
      | Some (Inl e) \<Rightarrow> Some (Inl e)
      | Some (Inr s1) \<Rightarrow> Some (gravity s1 (in_clock i) (in_rand i)))"

text \<open>
  The loop \<^verbatim>\<open>while (!gameOver)\<close>, run for at most as many iterations as inputs are
  given: the state when \<^verbatim>\<open>gameOver\<close> is found set at the head of the loop, or after the
  last of these iterations. \<^term>\<open>None\<close>: a hard drop did not return.
\<close>

fun run_loop :: "game_state \<Rightarrow> input list \<Rightarrow> (error + game_state) option" where
  "run_loop s [] = Some (Inr s)"
| "run_loop s (i # inps) =
     (if gameOver s then Some (Inr s)
      else (case step s i of
              None \<Rightarrow> None
            | Some (Inl e) \<Rightarrow> Some (Inl e)
            | Some (Inr s') \<Rightarrow> run_loop s' inps))"

text \<open>
  The start of \<^verbatim>\<open>gameLoop\<close>: \<^verbatim>\<open>highscore\<close> is 0, and is then read with
  \<^verbatim>\<open>operator>>\<close> if the file opens. The file is missing (or cannot be opened), or starts
  with the decimal number \<open>v\<close>, or does not start with a number. The read stores the number
  when it fits an \<^verbatim>\<open>int\<close>; for a number beyond the range of \<^verbatim>\<open>int\<close> (32 bits) it
  fails and stores the largest or the smallest \<^verbatim>\<open>int\<close>; without a number it fails and
  leaves 0.
\<close>

datatype hs_file = NotOpen | Number int | Unparsable

definition INT_MAX :: int where "INT_MAX = 2147483647"
definition INT_MIN :: int where "INT_MIN = - 2147483648"

definition load_highscore :: "hs_file \<Rightarrow> int" where
  "load_highscore f =
     (case f of
        NotOpen \<Rightarrow> 0
      | Number v \<Rightarrow> (if v > INT_MAX then INT_MAX else if v < INT_MIN then INT_MIN else v)
      | Unparsable \<Rightarrow> 0)"

record start =
  st_file :: hs_file
  st_render_once :: bool  \<comment> \<open>\<^verbatim>\<open>getenv("RENDER_ONCE")\<close> is set\<close>
  st_rand1 :: nat
  st_rand2 :: nat
  st_clock :: int

definition init_state :: "start \<Rightarrow> error + game_state" where
  "init_state st =
     bindE (newTetris 20 10)
       (\<lambda>g. let (currentIdx, t) = getNewTetromino (st_rand1 st);
                 (idx, n) = getNewTetromino (st_rand2 st)
             in Inr \<lparr>game = g, gameOver = False, score = 0, level = 1, totalLines = 0,
                     highscore = load_highscore (st_file st), tetromino = t, nextT = n,
                     nextIdx = idx, lastDrop = st_clock st, dropIntervalMs = 800\<rparr>)"

text \<open>The state of a session after at most the given iterations.\<close>

definition state_after :: "start \<Rightarrow> input list \<Rightarrow> (error + game_state) option" where
  "state_after st inps =
     (case init_state st of Inl e \<Rightarrow> Some (Inl e) | Inr s0 \<Rightarrow> run_loop s0 inps)"

text \<open>
  The end of \<^verbatim>\<open>gameLoop\<close>: the value written to the high-score file, if any. In
  render-once mode the function returns before the write. \<^term>\<open>None\<close>: the session has
  not ended on these inputs.
\<close>

definition save_highscore :: "game_state \<Rightarrow> int option" where
  "save_highscore s = (let finalScore = score s in
     if finalScore \<ge> highscore s then Some finalScore else None)"

definition gameLoop :: "start \<Rightarrow> input list \<Rightarrow> (error + int option \<times> game_state) option" where
  "gameLoop st inps =
     (case init_state st of
        Inl e \<Rightarrow> Some (Inl e)
      | Inr s0 \<Rightarrow>
          if st_render_once st then Some (Inr (None, s0))
          else (case run_loop s0 inps of
                  None \<Rightarrow> None
                | Some (Inl e) \<Rightarrow> Some (Inl e)
                | Some (Inr s) \<Rightarrow>
                    if gameOver s then Some (Inr (save_highscore s, s)) else None))"

section \<open>Notions used in the statements\<close>

text \<open>
  Every \<^verbatim>\<open>Tetris\<close> object keeps the grid size its constructor gave it:
  \<^verbatim>\<open>lockTetromino\<close> writes cells in place and \<^verbatim>\<open>clearLines\<close> replaces the grid by
  one of \<^verbatim>\<open>rows * cols\<close> cells.
\<close>

definition wf_board :: "Tetris \<Rightarrow> bool" where
  "wf_board g \<longleftrightarrow> int (length (grid g)) = rows g * cols g"

definition cell :: "Tetris \<Rightarrow> int \<Rightarrow> int \<Rightarrow> Block" where
  "cell g y x = grid g ! nat (y * cols g + x)"

text \<open>A piece collides: one of its blocks is outside the board or on an occupied cell.\<close>

definition collides :: "Tetris \<Rightarrow> Tetromino \<Rightarrow> bool" where
  "collides g t \<longleftrightarrow>
     list_ex (\<lambda>b. \<not> isInside g b \<or> occupied (cell g (pos_y b) (pos_x b))) (blocks t)"

text \<open>A piece shifted sideways, and the first candidate that does not collide.\<close>

definition shift :: "Tetromino \<Rightarrow> int \<Rightarrow> Tetromino" where
  "shift t dx = t\<lparr>blocks := map (\<lambda>b. Position (pos_x b + dx) (pos_y b)) (blocks t)\<rparr>"

definition first_free :: "Tetris \<Rightarrow> Tetromino list \<Rightarrow> Tetromino \<Rightarrow> Tetromino" where
  "first_free g candidates t =
     (case filter (\<lambda>c. \<not> collides g c) candidates of [] \<Rightarrow> t | c # _ \<Rightarrow> c)"

text \<open>A two by two board with one occupied cell, at column 1 of row 1.\<close>

definition board22 :: Tetris where
  "board22 = \<lparr>rows = 2, cols = 2,
     grid = [emptyBlock, emptyBlock, emptyBlock, \<lparr>cellColor = 12, occupied = True\<rparr>]\<rparr>"

text \<open>
  The empty standard board, and an I piece standing upright in column 8 with its pivot at
  the bottom: rotated it lies flat and sticks out of the right wall by two cells.
\<close>

definition empty_board :: Tetris where
  "empty_board = \<lparr>rows = 20, cols = 10, grid = replicate 200 emptyBlock\<rparr>"

definition piece_I_up :: Tetromino where
  "piece_I_up = \<lparr>blocks = [Position 8 5, Position 8 4, Position 8 3, Position 8 2],
                  colorPair = 11, shapeIdx = 1\<rparr>"

definition piece_I_flat :: Tetromino where
  "piece_I_flat = \<lparr>blocks = [Position 8 5, Position 9 5, Position 10 5, Position 11 5],
                  colorPair = 11, shapeIdx = 1\<rparr>"

definition kick_state :: game_state where
  "kick_state = \<lparr>game = empty_board, gameOver = False, score = 0, level = 1, totalLines = 0,
     highscore = 0, tetromino = piece_I_up,
     nextT = \<lparr>blocks = [Position 4 0, Position 5 0, Position 4 1, Position 5 1], colorPair = 10, shapeIdx = 0\<rparr>,
     nextIdx = 0, lastDrop = 0, dropIntervalMs = 800\<rparr>"

definition piece_I_kicked :: Tetromino where
  "piece_I_kicked = \<lparr>blocks = [Position 6 5, Position 7 5, Position 8 5, Position 9 5],
                  colorPair = 11, shapeIdx = 1\<rparr>"

definition piece_I_wall :: Tetromino where
  "piece_I_wall = \<lparr>blocks = [Position 0 5, Position 0 4, Position 0 3, Position 0 2],
                  colorPair = 11, shapeIdx = 1\<rparr>"

text \<open>
  A row is full when every column of it is occupied. \<open>fullRows\<close> lists the full rows in
  increasing order; \<open>compacted\<close> is the board \<^verbatim>\<open>clearLines\<close> is to leave: unchanged when
  no row is full, otherwise one empty row for each full row on top of the other rows in
  their order.
\<close>

definition is_full :: "Tetris \<Rightarrow> int \<Rightarrow> bool" where
  "is_full g y \<longleftrightarrow> list_all (\<lambda>x. occupied (cell g y x)) [0 .. cols g - 1]"

definition fullRows :: "Tetris \<Rightarrow> int list" where
  "fullRows g = filter (is_full g) [0 .. rows g - 1]"

definition row_of :: "Tetris \<Rightarrow> int \<Rightarrow> Block list" where
  "row_of g y = map (cell g y) [0 .. cols g - 1]"

definition compacted :: "Tetris \<Rightarrow> Tetris" where
  "compacted g =
     (if fullRows g = [] then g
      else g\<lparr>grid := replicate (length (fullRows g) * nat (cols g)) emptyBlock
                       @ concat (map (row_of g) (filter (\<lambda>y. \<not> is_full g y) [0 .. rows g - 1]))\<rparr>)"

text \<open>A three by two board whose middle row is full.\<close>

definition board32 :: Tetris where
  "board32 = \<lparr>rows = 3, cols = 2,
     grid = [emptyBlock, \<lparr>cellColor = 11, occupied = True\<rparr>,
             \<lparr>cellColor = 12, occupied = True\<rparr>, \<lparr>cellColor = 13, occupied = True\<rparr>,
             \<lparr>cellColor = 14, occupied = True\<rparr>, emptyBlock]\<rparr>"

text \<open>A piece moved down by \<open>n\<close> rows, and where the upright I piece of the example lands.\<close>

definition lowered :: "Tetromino \<Rightarrow> nat \<Rightarrow> Tetromino" where
  "lowered t n = t\<lparr>blocks := map (\<lambda>b. Position (pos_x b) (pos_y b + int n)) (blocks t)\<rparr>"

definition piece_I_landed :: Tetromino where
  "piece_I_landed = \<lparr>blocks = [Position 8 19, Position 8 18, Position 8 17, Position 8 16],
                  colorPair = 11, shapeIdx = 1\<rparr>"

text \<open>
  A four by two board with the left cells of its two bottom rows occupied, after an upright
  piece is locked into column 1, and after the two full rows are cleared; a state at level 3
  with that piece active.
\<close>

definition board42 :: Tetris where
  "board42 = \<lparr>rows = 4, cols = 2,
     grid = [emptyBlock, emptyBlock, emptyBlock, emptyBlock,
             \<lparr>cellColor = 12, occupied = True\<rparr>, emptyBlock,
             \<lparr>cellColor = 13, occupied = True\<rparr>, emptyBlock]\<rparr>"

definition board42_locked :: Tetris where
  "board42_locked = \<lparr>rows = 4, cols = 2,
     grid = [emptyBlock, \<lparr>cellColor = 11, occupied = True\<rparr>,
             emptyBlock, \<lparr>cellColor = 11, occupied = True\<rparr>,
             \<lparr>cellColor = 12, occupied = True\<rparr>, \<lparr>cellColor = 11, occupied = True\<rparr>,
             \<lparr>cellColor = 13, occupied = True\<rparr>, \<lparr>cellColor = 11, occupied = True\<rparr>]\<rparr>"

definition board42_cleared :: Tetris where
  "board42_cleared = \<lparr>rows = 4, cols = 2,
     grid = [emptyBlock, emptyBlock, emptyBlock, emptyBlock,
             emptyBlock, \<lparr>cellColor = 11, occupied = True\<rparr>,
             emptyBlock, \<lparr>cellColor = 11, occupied = True\<rparr>]\<rparr>"

definition level3_state :: game_state where
  "level3_state = \<lparr>game = board42, gameOver = False, score = 1000, level = 3, totalLines = 29,
     highscore = 1200,
     tetromino = \<lparr>blocks = [Position 1 0, Position 1 1, Position 1 2, Position 1 3],
                   colorPair = 11, shapeIdx = 1\<rparr>,
     nextT = \<lparr>blocks = [Position 4 0, Position 5 0, Position 4 1, Position 5 1], colorPair = 10, shapeIdx = 0\<rparr>,
     nextIdx = 0, lastDrop = 0, dropIntervalMs = 650\<rparr>"

text \<open>
  What holds of the state throughout a session whose high-score file gave \<open>stored\<close> at
  the start: the grid has \<^verbatim>\<open>rows * cols\<close> cells and no full row, both pieces have four
  blocks, the level is at least 1, the line count is not negative, and the in-memory high
  score is the stored value or else the score, which then is at least the stored value.
\<close>

definition game_inv :: "int \<Rightarrow> game_state \<Rightarrow> bool" where
  "game_inv stored s \<longleftrightarrow>
     wf_board (game s) \<and> 0 < cols (game s) \<and> fullRows (game s) = []
     \<and> length (blocks (tetromino s)) = 4 \<and> length (blocks (nextT s)) = 4
     \<and> 1 \<le> level s \<and> 0 \<le> totalLines s
     \<and> (highscore s = stored \<or> highscore s = score s \<and> stored \<le> score s)"

text \<open>
  A session that finds no high-score file and draws the O piece and then the I piece; its
  first state; a Left key and a Quit key pressed 90 ms after the start; and the same start
  in render-once mode.
\<close>

definition piece_O :: Tetromino where
  "piece_O = \<lparr>blocks = [Position 4 0, Position 5 0, Position 4 1, Position 5 1],
               colorPair = 10, shapeIdx = 0\<rparr>"

definition piece_I :: Tetromino where
  "piece_I = \<lparr>blocks = [Position 3 0, Position 4 0, Position 5 0, Position 6 0],
               colorPair = 11, shapeIdx = 1\<rparr>"

definition start0 :: start where
  "start0 = \<lparr>st_file = NotOpen, st_render_once = False, st_rand1 = 0, st_rand2 = 1, st_clock = 0\<rparr>"

definition state0 :: game_state where
  "state0 = \<lparr>game = empty_board, gameOver = False, score = 0, level = 1, totalLines = 0,
     highscore = 0, tetromino = piece_O, nextT = piece_I, nextIdx = 1, lastDrop = 0,
     dropIntervalMs = 800\<rparr>"

definition key_left :: input where
  "key_left = \<lparr>in_ch = KEY_LEFT, in_clock_key = 0, in_clock = 90000000, in_rand = 0\<rparr>"

definition key_quit :: input where
  "key_quit = \<lparr>in_ch = CH_q, in_clock_key = 0, in_clock = 90000000, in_rand = 0\<rparr>"

definition start_once :: start where
  "start_once = \<lparr>st_file = NotOpen, st_render_once = True, st_rand1 = 0, st_rand2 = 1, st_clock = 0\<rparr>"

text \<open>
  The read of the high-score file fails: the file does not open, or \<^verbatim>\<open>operator>>\<close> sets
  the fail bit. Two more starts, one with a file that holds 500 and one with a file that holds
  a number too large for an \<^verbatim>\<open>int\<close>.
\<close>

definition read_fails :: "hs_file \<Rightarrow> bool" where
  "read_fails f =
     (case f of NotOpen \<Rightarrow> True | Number v \<Rightarrow> v > INT_MAX \<or> v < INT_MIN | Unparsable \<Rightarrow> True)"

definition start_500 :: start where
  "start_500 = \<lparr>st_file = Number 500, st_render_once = False, st_rand1 = 0, st_rand2 = 1, st_clock = 0\<rparr>"

definition start_big :: start where
  "start_big = \<lparr>st_file = Number 99999999999, st_render_once = False, st_rand1 = 0, st_rand2 = 1,
     st_clock = 0\<rparr>"

text \<open>
  A session that fills the bottom row: it draws two I pieces and then O pieces, all clock
  readings are 0, and the keys are three times Left and a hard drop, once Right and a hard
  drop, and four times Right. The state this reaches has the first eight cells of row 19
  occupied and an O piece above columns 8 and 9; its hard drop, the board with that piece
  locked, and the board after the full row is cleared.
\<close>

definition start_fill :: start where
  "start_fill = \<lparr>st_file = NotOpen, st_render_once = False, st_rand1 = 1, st_rand2 = 1, st_clock = 0\<rparr>"

definition key0 :: "int \<Rightarrow> input" where
  "key0 c = \<lparr>in_ch = c, in_clock_key = 0, in_clock = 0, in_rand = 0\<rparr>"

definition fill_inputs :: "input list" where
  "fill_inputs = [key0 KEY_LEFT, key0 KEY_LEFT, key0 KEY_LEFT, key0 CH_space,
                  key0 KEY_RIGHT, key0 CH_space,
                  key0 KEY_RIGHT, key0 KEY_RIGHT, key0 KEY_RIGHT, key0 KEY_RIGHT]"

definition fill_state :: game_state where
  "fill_state = \<lparr>game = \<lparr>rows = 20, cols = 10,
        grid = replicate 190 emptyBlock @ replicate 8 \<lparr>cellColor = 11, occupied = True\<rparr>
               @ replicate 2 emptyBlock\<rparr>,
     gameOver = False, score = 0, level = 1, totalLines = 0, highscore = 0,
     tetromino = \<lparr>blocks = [Position 8 0, Position 9 0, Position 8 1, Position 9 1],
                   colorPair = 10, shapeIdx = 0\<rparr>,
     nextT = piece_O, nextIdx = 0, lastDrop = 0, dropIntervalMs = 800\<rparr>"

definition fill_dropped :: game_state where
  "fill_dropped = fill_state\<lparr>
     tetromino := \<lparr>blocks = [Position 8 18, Position 9 18, Position 8 19, Position 9 19],
                    colorPair = 10, shapeIdx = 0\<rparr>,
     lastDrop := - 10000000000\<rparr>"

definition fill_locked :: Tetris where
  "fill_locked = \<lparr>rows = 20, cols = 10,
     grid = replicate 188 emptyBlock @ replicate 2 \<lparr>cellColor = 10, occupied = True\<rparr>
            @ replicate 8 \<lparr>cellColor = 11, occupied = True\<rparr>
            @ replicate 2 \<lparr>cellColor = 10, occupied = True\<rparr>\<rparr>"

definition fill_cleared :: Tetris where
  "fill_cleared = \<lparr>rows = 20, cols = 10,
     grid = replicate 198 emptyBlock @ replicate 2 \<lparr>cellColor = 10, occupied = True\<rparr>\<rparr>"


section \<open>Basic facts\<close>

lemma bindE_simps [simp]: "bindE (Inl e) f = Inl e" "bindE (Inr v) f = f v"
  by (simp_all add: bindE_def)

lemma inside_index:
  assumes "wf_board g" "0 \<le> x" "x < cols g" "0 \<le> y" "y < rows g"
  shows "0 \<le> y * cols g + x \<and> y * cols g + x < int (length (grid g))"
proof -
  have "y * cols g + x < (y + 1) * cols g" using assms by (simp add: algebra_simps)
  also have "\<dots> \<le> rows g * cols g" using assms by (intro mult_right_mono) auto
  finally show ?thesis using assms by (simp add: wf_board_def)
qed

lemma isOccupied_wf:
  "wf_board g \<Longrightarrow> isOccupied g p = Inr (\<not> isInside g p \<or> occupied (cell g (pos_y p) (pos_x p)))"
  using inside_index[of g "pos_x p" "pos_y p"]
  by (auto simp: isOccupied_def isInside_def grid_get_def cell_def)

lemma checkCollision_blocks_wf:
  "wf_board g \<Longrightarrow> checkCollision_blocks g bs =
     Inr (list_ex (\<lambda>b. \<not> isInside g b \<or> occupied (cell g (pos_y b) (pos_x b))) bs)"
  by (induction bs) (auto simp: isOccupied_wf)

lemma checkCollision_wf: "wf_board g \<Longrightarrow> checkCollision g t = Inr (collides g t)"
  by (simp add: checkCollision_def collides_def checkCollision_blocks_wf)


section \<open>Input dispatch on a well-formed board\<close>

lemma move_right_shift: "move t VEC_RIGHT = shift t 1"
  by (simp add: move_def shift_def pos_add_def VEC_RIGHT_def)

lemma move_left2_shift: "move (move t VEC_LEFT) VEC_LEFT = shift t (- 2)"
  by (simp add: move_def shift_def pos_add_def VEC_LEFT_def comp_def)

lemma shift_right_left2: "move (move (shift t 1) VEC_LEFT) VEC_LEFT = shift t (- 1)"
  by (simp add: move_def shift_def pos_add_def VEC_LEFT_def comp_def)

lemma translate_input_wf:
  "wf_board (game s) \<Longrightarrow> translate_input s d =
     Inr (if collides (game s) (move (tetromino s) d) then s else s\<lparr>tetromino := move (tetromino s) d\<rparr>)"
  by (simp add: translate_input_def checkCollision_wf Let_def)

lemma rotate_input_wf:
  assumes "wf_board (game s)" "rotateT (tetromino s) = Inr rot"
  shows "rotate_input s =
    Inr (s\<lparr>tetromino := first_free (game s) [rot, shift rot 1, shift rot (- 2)] (tetromino s)\<rparr>)"
  using assms
  by (simp add: rotate_input_def checkCollision_wf Let_def first_free_def
      move_right_shift move_left2_shift)

lemma rotate_input_legacy_wf:
  assumes "wf_board (game s)" "rotateT (tetromino s) = Inr rot"
  shows "rotate_input_legacy s =
    Inr (s\<lparr>tetromino := first_free (game s) [rot, shift rot 1, shift rot (- 1)] (tetromino s)\<rparr>)"
  using assms
  by (simp add: rotate_input_legacy_def checkCollision_wf Let_def first_free_def
      move_right_shift shift_right_left2)

lemmas key_defs = ERR_def KEY_DOWN_def KEY_UP_def KEY_LEFT_def KEY_RIGHT_def
  CH_q_def CH_a_def CH_d_def CH_s_def CH_w_def CH_space_def

lemma handle_input_translate:
  assumes "(ch = CH_a \<or> ch = KEY_LEFT) \<and> d = VEC_LEFT
         \<or> (ch = CH_d \<or> ch = KEY_RIGHT) \<and> d = VEC_RIGHT
         \<or> (ch = CH_s \<or> ch = KEY_DOWN) \<and> d = VEC_DOWN"
  shows "handle_input s ch clock = Some (translate_input s d)"
  using assms unfolding handle_input_def key_defs by auto

lemma handle_input_rotate:
  assumes "ch = CH_w \<or> ch = KEY_UP"
  shows "handle_input s ch clock = Some (rotate_input s)"
  using assms unfolding handle_input_def key_defs by auto

subsection \<open>The empty board and the example pieces\<close>

lemma wf_empty_board: "wf_board empty_board"
  by (simp add: wf_board_def empty_board_def)

lemma rot_I_up: "rotateT piece_I_up = Inr piece_I_flat"
  by (simp add: rotateT_def piece_I_up_def piece_I_flat_def rotate_block_def)

lemma free_empty_board:
  assumes "0 \<le> x" "x < 10" "0 \<le> y" "y < 20"
  shows "\<not> occupied (cell empty_board y x)"
proof -
  have "nat (y * 10 + x) < 200" using assms by simp
  then show ?thesis by (simp add: cell_def empty_board_def emptyBlock_def)
qed

lemma collides_empty_board:
  "collides empty_board t \<longleftrightarrow>
     list_ex (\<lambda>b. \<not> (0 \<le> pos_x b \<and> pos_x b < 10 \<and> 0 \<le> pos_y b \<and> pos_y b < 20)) (blocks t)"
proof -
  have "(\<not> isInside empty_board b \<or> occupied (cell empty_board (pos_y b) (pos_x b)))
      \<longleftrightarrow> \<not> (0 \<le> pos_x b \<and> pos_x b < 10 \<and> 0 \<le> pos_y b \<and> pos_y b < 20)" for b
    using free_empty_board[of "pos_x b" "pos_y b"]
    by (auto simp: isInside_def empty_board_def)
  then show ?thesis by (simp add: collides_def)
qed

lemma kick_state_sel:
  "game kick_state = empty_board" "tetromino kick_state = piece_I_up"
  by (simp_all add: kick_state_def)

lemma kick_candidates:
  "collides empty_board piece_I_flat"
  "collides empty_board (shift piece_I_flat 1)"
  "collides empty_board (shift piece_I_flat (- 1))"
  "\<not> collides empty_board piece_I_kicked"
  "shift piece_I_flat (- 2) = piece_I_kicked"
  by (simp_all add: collides_empty_board piece_I_flat_def piece_I_kicked_def shift_def)

lemma kick_first_free:
  "first_free empty_board [piece_I_flat, shift piece_I_flat 1, shift piece_I_flat (- 2)] piece_I_up
     = piece_I_kicked"
  "first_free empty_board [piece_I_flat, shift piece_I_flat 1, shift piece_I_flat (- 1)] piece_I_up
     = piece_I_up"
  by (simp_all add: first_free_def kick_candidates)

lemma kicked_differs: "piece_I_kicked \<noteq> piece_I_up"
  by (simp add: piece_I_kicked_def piece_I_up_def)

lemma kick_state_same: "kick_state\<lparr>tetromino := piece_I_up\<rparr> = kick_state"
  by (simp add: kick_state_def)

section \<open>Occupancy is total\<close>

text \<open>
  Claim C7. \<^verbatim>\<open>isOccupied\<close> has no error case. For a position left of, right of, above or
  below the board it returns true on any board, whatever the grid holds, so the grid is not
  read there. For a position on the board the index \<^verbatim>\<open>p.y * cols + p.x\<close> lies inside the
  grid and the result is the occupied flag stored there.
\<close>

theorem isOccupied_total:
  "(pos_x p < 0 \<or> pos_x p \<ge> cols g \<or> pos_y p < 0 \<or> pos_y p \<ge> rows g
      \<longrightarrow> isOccupied g p = Inr True)
   \<and> (wf_board g \<and> \<not> (pos_x p < 0 \<or> pos_x p \<ge> cols g \<or> pos_y p < 0 \<or> pos_y p \<ge> rows g)
      \<longrightarrow> 0 \<le> pos_y p * cols g + pos_x p
          \<and> pos_y p * cols g + pos_x p < int (length (grid g))
          \<and> isOccupied g p = Inr (occupied (grid g ! nat (pos_y p * cols g + pos_x p))))"
proof (intro conjI impI)
  assume "pos_x p < 0 \<or> pos_x p \<ge> cols g \<or> pos_y p < 0 \<or> pos_y p \<ge> rows g"
  then show "isOccupied g p = Inr True"
    by (auto simp: isOccupied_def isInside_def)
next
  assume a: "wf_board g \<and> \<not> (pos_x p < 0 \<or> pos_x p \<ge> cols g \<or> pos_y p < 0 \<or> pos_y p \<ge> rows g)"
  then have i: "0 \<le> pos_y p * cols g + pos_x p \<and> pos_y p * cols g + pos_x p < int (length (grid g))"
    using inside_index[of g "pos_x p" "pos_y p"] by auto
  from i show "0 \<le> pos_y p * cols g + pos_x p" by simp
  from i show "pos_y p * cols g + pos_x p < int (length (grid g))" by simp
  from a i show "isOccupied g p = Inr (occupied (grid g ! nat (pos_y p * cols g + pos_x p)))"
    by (auto simp: isOccupied_def isInside_def grid_get_def)
qed

theorem isOccupied_total_witness:
  "isOccupied board22 (Position (- 1) 0) = Inr True
   \<and> isOccupied board22 (Position 0 2) = Inr True
   \<and> isOccupied board22 (Position 1 1) = Inr True
   \<and> isOccupied board22 (Position 1 0) = Inr False"
  using isOccupied_total[of "Position (- 1) 0" board22]
    isOccupied_total[of "Position 0 2" board22]
    isOccupied_total[of "Position 1 1" board22]
    isOccupied_total[of "Position 1 0" board22]
  by (simp add: board22_def wf_board_def emptyBlock_def)


section \<open>Rotation\<close>

text \<open>
  Claim C2. \<^verbatim>\<open>rotate\<close> returns the piece as it is when \<^verbatim>\<open>shapeIdx\<close> is 0. For any
  other piece (with a first block) every block at offset \<open>(rx, ry)\<close> from the pivot
  \<^verbatim>\<open>blocks[0]\<close> goes to pivot + \<open>(- ry, rx)\<close>; colour and shape index are kept.
\<close>

theorem rotate_about_first_block:
  "(shapeIdx t = 0 \<longrightarrow> rotateT t = Inr t)
   \<and> (shapeIdx t \<noteq> 0 \<and> blocks t \<noteq> [] \<longrightarrow>
        rotateT t = Inr (t\<lparr>blocks :=
          map (\<lambda>b. let pivot = blocks t ! 0;
                       rx = pos_x b - pos_x pivot;
                       ry = pos_y b - pos_y pivot
                   in pos_add pivot (Position (- ry) rx)) (blocks t)\<rparr>))"
  by (cases "blocks t") (auto simp: rotateT_def rotate_block_def pos_add_def Let_def)

theorem rotate_about_first_block_witness:
  "rotateT \<lparr>blocks = [Position 4 0, Position 5 0, Position 4 1, Position 5 1], colorPair = 10, shapeIdx = 0\<rparr>
     = Inr \<lparr>blocks = [Position 4 0, Position 5 0, Position 4 1, Position 5 1], colorPair = 10, shapeIdx = 0\<rparr>
   \<and> rotateT \<lparr>blocks = [Position 4 3, Position 5 3, Position 6 3, Position 5 4], colorPair = 14, shapeIdx = 4\<rparr>
     = Inr \<lparr>blocks = [Position 4 3, Position 4 4, Position 4 5, Position 3 4], colorPair = 14, shapeIdx = 4\<rparr>"
  using rotate_about_first_block[of "\<lparr>blocks = [Position 4 0, Position 5 0, Position 4 1, Position 5 1], colorPair = 10, shapeIdx = 0\<rparr>"]
    rotate_about_first_block[of "\<lparr>blocks = [Position 4 3, Position 5 3, Position 6 3, Position 5 4], colorPair = 14, shapeIdx = 4\<rparr>"]
  by (simp add: pos_add_def)

section \<open>Rejected moves\<close>

text \<open>
  Claim C6. On a Left, Right or SoftDrop key whose translated candidate collides (a block
  outside the board or on an occupied cell), input handling returns the state it was given:
  the blocks of the active piece, the board and everything else are unchanged, and no error
  is raised.
\<close>

theorem rejected_move_unchanged:
  assumes "wf_board (game s)"
    and "(ch = CH_a \<or> ch = KEY_LEFT) \<and> d = VEC_LEFT
         \<or> (ch = CH_d \<or> ch = KEY_RIGHT) \<and> d = VEC_RIGHT
         \<or> (ch = CH_s \<or> ch = KEY_DOWN) \<and> d = VEC_DOWN"
    and "collides (game s) (move (tetromino s) d)"
  shows "handle_input s ch clock = Some (Inr s)"
  by (simp add: handle_input_translate[OF assms(2)] translate_input_wf[OF assms(1)] assms(3))

theorem rejected_move_unchanged_witness:
  "handle_input (kick_state\<lparr>tetromino := piece_I_wall\<rparr>) KEY_LEFT 0
     = Some (Inr (kick_state\<lparr>tetromino := piece_I_wall\<rparr>))"
proof -
  have w: "wf_board (game (kick_state\<lparr>tetromino := piece_I_wall\<rparr>))"
    by (simp add: kick_state_sel wf_empty_board)
  have c: "collides (game (kick_state\<lparr>tetromino := piece_I_wall\<rparr>))
             (move (tetromino (kick_state\<lparr>tetromino := piece_I_wall\<rparr>)) VEC_LEFT)"
    by (simp add: kick_state_sel collides_empty_board piece_I_wall_def move_def pos_add_def VEC_LEFT_def)
  show ?thesis
    using rejected_move_unchanged[OF w _ c, of KEY_LEFT 0] by simp
qed

section \<open>Rotation with wall kicks\<close>

text \<open>
  Claim C3, as amended. On a Rotate key \<^verbatim>\<open>tetrois.cpp\<close> commits the first candidate that
  does not collide among the rotated piece, the rotated piece one cell to the right, and the
  rotated piece two cells to the left of the rotated position, and leaves the piece unchanged
  when all three collide. \<^verbatim>\<open>tetrois_leagacy.cpp\<close> does the same with a third candidate
  one cell to the left of the rotated position.
\<close>

theorem rotate_wall_kick:
  assumes "wf_board (game s)" and "rotateT (tetromino s) = Inr rot"
    and "ch = CH_w \<or> ch = KEY_UP"
  shows "handle_input s ch clock =
           Some (Inr (s\<lparr>tetromino :=
             first_free (game s) [rot, shift rot 1, shift rot (- 2)] (tetromino s)\<rparr>))
         \<and> rotate_input_legacy s =
           Inr (s\<lparr>tetromino :=
             first_free (game s) [rot, shift rot 1, shift rot (- 1)] (tetromino s)\<rparr>)"
  by (simp only: handle_input_rotate[OF assms(3)] rotate_input_wf[OF assms(1,2)]
      rotate_input_legacy_wf[OF assms(1,2)] simp_thms)

theorem rotate_wall_kick_witness:
  "handle_input kick_state CH_w 0 = Some (Inr (kick_state\<lparr>tetromino := piece_I_kicked\<rparr>))
   \<and> rotate_input_legacy kick_state = Inr kick_state"
proof -
  have w: "wf_board (game kick_state)" by (simp add: kick_state_sel wf_empty_board)
  have r: "rotateT (tetromino kick_state) = Inr piece_I_flat"
    by (simp add: kick_state_sel rot_I_up)
  show ?thesis
    using rotate_wall_kick[OF w r, of CH_w 0]
    by (simp add: kick_state_sel kick_first_free kick_state_same)
qed

text \<open>
  The claim as stated fails for \<^verbatim>\<open>tetrois_leagacy.cpp\<close>: for the upright I piece in
  column 8 of the empty board the rotated piece and its right shift hit the wall, the piece two
  cells left of the rotated position is free, and the legacy build leaves the piece unchanged.
\<close>

theorem legacy_kick_counterexample:
  "rotateT (tetromino kick_state) = Inr piece_I_flat
   \<and> first_free (game kick_state)
        [piece_I_flat, shift piece_I_flat 1, shift piece_I_flat (- 2)] (tetromino kick_state)
      = piece_I_kicked
   \<and> piece_I_kicked \<noteq> tetromino kick_state
   \<and> rotate_input_legacy kick_state = Inr kick_state"
proof -
  have w: "wf_board (game kick_state)" by (simp add: kick_state_sel wf_empty_board)
  have r: "rotateT (tetromino kick_state) = Inr piece_I_flat"
    by (simp add: kick_state_sel rot_I_up)
  have l: "rotate_input_legacy kick_state = Inr kick_state"
    by (simp add: rotate_input_legacy_wf[OF w r] kick_state_sel kick_first_free kick_state_same)
  show ?thesis
    by (simp add: r l) (simp add: kick_state_sel kick_first_free kicked_differs)
qed

section \<open>Clearing lines\<close>

lemma row_full_from_wf:
  assumes "wf_board g" "0 \<le> y" "y < rows g" "\<forall>x\<in>set xs. 0 \<le> x \<and> x < cols g"
  shows "row_full_from g y xs = Inr (list_all (\<lambda>x. occupied (cell g y x)) xs)"
  using assms(4)
proof (induction xs)
  case Nil
  then show ?case by simp
next
  case (Cons x xs)
  then have "0 \<le> y * cols g + x \<and> y * cols g + x < int (length (grid g))"
    using inside_index[OF assms(1), of x y] assms(2,3) by simp
  with Cons show ?case by (simp add: grid_get_def cell_def)
qed

lemma row_full_wf:
  assumes "wf_board g" "0 \<le> y" "y < rows g"
  shows "row_full g y = Inr (is_full g y)"
  unfolding row_full_def is_full_def
  by (rule row_full_from_wf[OF assms]) simp

lemma scan_rows_wf:
  assumes "wf_board g" "\<forall>y\<in>set ys. 0 \<le> y \<and> y < rows g"
  shows "scan_rows g ys acc = Inr (acc @ filter (is_full g) ys)"
  using assms(2)
  by (induction ys arbitrary: acc) (simp_all add: row_full_wf[OF assms(1)])

lemma scan_rows_all:
  "wf_board g \<Longrightarrow> scan_rows g [0 .. rows g - 1] [] = Inr (fullRows g)"
  by (simp add: scan_rows_wf fullRows_def)

lemma wf_cols_nonneg: "wf_board g \<Longrightarrow> 0 < rows g \<Longrightarrow> 0 \<le> cols g"
proof (rule ccontr)
  assume w: "wf_board g" and r: "0 < rows g" and "\<not> 0 \<le> cols g"
  then have "rows g * cols g < 0" by (simp add: mult_pos_neg)
  with w show False by (simp add: wf_board_def)
qed

lemma row_end_index:
  assumes "wf_board g" "0 \<le> t" "t < rows g"
  shows "0 \<le> t * cols g" "(t + 1) * cols g \<le> int (length (grid g))"
proof -
  have c: "0 \<le> cols g" using assms wf_cols_nonneg[of g] by simp
  show "0 \<le> t * cols g" using assms c by simp
  have "(t + 1) * cols g \<le> rows g * cols g" using assms c by (intro mult_right_mono) auto
  then show "(t + 1) * cols g \<le> int (length (grid g))" using assms by (simp add: wf_board_def)
qed

lemma copy_row_from:
  assumes "wf_board g" "0 \<le> y" "y < rows g" "0 \<le> t" "t < rows g"
    and "length ng = length (grid g)" "0 \<le> j" "j \<le> cols g"
  shows "copy_row g y t [j .. cols g - 1] ng =
     Inr (take (nat (t * cols g + j)) ng @ map (cell g y) [j .. cols g - 1]
          @ drop (nat ((t + 1) * cols g)) ng)"
  using assms(6-8)
proof (induction "nat (cols g - j)" arbitrary: j ng)
  case 0
  then have j: "j = cols g" by simp
  have "t * cols g + cols g = (t + 1) * cols g" by (simp add: algebra_simps)
  then show ?case by (simp add: j)
next
  case (Suc n)
  then have jlt: "j < cols g" by simp
  have up: "[j .. cols g - 1] = j # [j + 1 .. cols g - 1]"
    using jlt by (simp add: upto_rec1)
  have rd: "0 \<le> y * cols g + j \<and> y * cols g + j < int (length (grid g))"
    using inside_index[OF assms(1), of j y] Suc.prems jlt assms(2,3) by simp
  have wr: "0 \<le> t * cols g + j \<and> t * cols g + j < int (length ng)"
    using inside_index[OF assms(1), of j t] Suc.prems jlt assms(4,5) by simp
  have hi: "t * cols g + j < (t + 1) * cols g" using jlt by (simp add: algebra_simps)
  define k where "k = nat (t * cols g + j)"
  define ng1 where "ng1 = ng[k := cell g y j]"
  have klen: "k < length ng" using wr unfolding k_def by (simp add: nat_less_iff)
  have "t * cols g + (j + 1) = (t * cols g + j) + 1" by simp
  then have ksuc: "nat (t * cols g + (j + 1)) = Suc k"
    using wr unfolding k_def by (simp add: Suc_nat_eq_nat_zadd1 add.commute)
  have khi: "k < nat ((t + 1) * cols g)" using hi wr unfolding k_def by (simp add: nat_less_eq_zless)
  have ih: "copy_row g y t [j + 1 .. cols g - 1] ng1 =
     Inr (take (nat (t * cols g + (j + 1))) ng1 @ map (cell g y) [j + 1 .. cols g - 1]
          @ drop (nat ((t + 1) * cols g)) ng1)"
    using Suc.hyps(2) Suc.prems jlt by (intro Suc.hyps(1)) (auto simp: ng1_def)
  have tk: "take (Suc k) ng1 = take k ng @ [cell g y j]"
    using klen by (simp add: ng1_def take_Suc_conv_app_nth)
  have dr: "drop (nat ((t + 1) * cols g)) ng1 = drop (nat ((t + 1) * cols g)) ng"
    using khi by (simp add: ng1_def)
  have step: "copy_row g y t (j # [j + 1 .. cols g - 1]) ng = copy_row g y t [j + 1 .. cols g - 1] ng1"
    using rd wr by (simp add: grid_get_def grid_set_def cell_def ng1_def k_def)
  show ?case
    unfolding up step ih ksuc tk dr by (simp add: k_def)
qed

lemma copy_row_wf:
  assumes "wf_board g" "0 \<le> y" "y < rows g" "0 \<le> t" "t < rows g"
    and "length ng = length (grid g)"
  shows "copy_row g y t [0 .. cols g - 1] ng =
     Inr (take (nat (t * cols g)) ng @ row_of g y @ drop (nat ((t + 1) * cols g)) ng)"
  using copy_row_from[OF assms, of 0] wf_cols_nonneg[OF assms(1)] assms(2,3)
  by (simp add: row_of_def)

lemma length_row_of: "length (row_of g y) = nat (cols g)"
  by (simp add: row_of_def)

lemma compact_rows_wf:
  assumes "wf_board g"
  shows "\<lbrakk>\<forall>y\<in>set ys. 0 \<le> y \<and> y < rows g; length ng = length (grid g); - 1 \<le> t; t < rows g;
          int (length (filter (\<lambda>y. y \<notin> set L) ys)) \<le> t + 1\<rbrakk> \<Longrightarrow>
     compact_rows g L ys t ng =
       Inr (take (nat ((t + 1 - int (length (filter (\<lambda>y. y \<notin> set L) ys))) * cols g)) ng
            @ concat (map (row_of g) (rev (filter (\<lambda>y. y \<notin> set L) ys)))
            @ drop (nat ((t + 1) * cols g)) ng)"
proof (induction ys arbitrary: t ng)
  case Nil
  then show ?case by simp
next
  case (Cons y ys)
  show ?case
  proof (cases "y \<in> set L")
    case True
    then show ?thesis using Cons by simp
  next
    case False
    let ?kept = "filter (\<lambda>y. y \<notin> set L) ys"
    have y: "0 \<le> y" "y < rows g" using Cons.prems(1) by simp_all
    have t0: "0 \<le> t" using Cons.prems(5) False by simp
    have c: "0 \<le> cols g" using wf_cols_nonneg[OF assms] y by simp
    note re = row_end_index[OF assms t0 Cons.prems(4)]
    define a where "a = nat (t * cols g)"
    define b where "b = nat ((t + 1) * cols g)"
    define ng1 where "ng1 = take a ng @ row_of g y @ drop b ng"
    have ab: "b = a + nat (cols g)"
      using re(1) c unfolding a_def b_def by (simp add: algebra_simps nat_add_distrib)
    have blen: "b \<le> length ng"
      using re(2) Cons.prems(2) unfolding b_def by (simp add: nat_le_iff)
    have len1: "length ng1 = length (grid g)"
      using ab blen Cons.prems(2) by (simp add: ng1_def length_row_of)
    have cp: "copy_row g y t [0 .. cols g - 1] ng = Inr ng1"
      using copy_row_wf[OF assms y t0 Cons.prems(4) Cons.prems(2)]
      by (simp add: ng1_def a_def b_def)
    have m: "int (length ?kept) \<le> (t - 1) + 1" using Cons.prems(5) False by simp
    have ih: "compact_rows g L ys (t - 1) ng1 =
       Inr (take (nat ((t - 1 + 1 - int (length ?kept)) * cols g)) ng1
            @ concat (map (row_of g) (rev ?kept))
            @ drop (nat ((t - 1 + 1) * cols g)) ng1)"
      using Cons.prems(1,4) t0 m len1 by (intro Cons.IH) auto
    define d where "d = nat ((t - int (length ?kept)) * cols g)"
    have "(t - int (length ?kept)) * cols g \<le> t * cols g"
      using c by (intro mult_right_mono) auto
    then have da: "d \<le> a" unfolding d_def a_def by (simp add: nat_mono)
    have alen: "a \<le> length ng" using ab blen by simp
    have tk: "take d ng1 = take d ng"
      using da alen by (simp add: ng1_def min_def)
    have dr: "drop a ng1 = row_of g y @ drop b ng"
      using alen by (simp add: ng1_def)
    have "compact_rows g L (y # ys) t ng = compact_rows g L ys (t - 1) ng1"
      using False cp by simp
    also have "\<dots> = Inr (take d ng @ concat (map (row_of g) (rev ?kept)) @ row_of g y @ drop b ng)"
      unfolding ih using tk dr by (simp add: d_def a_def)
    finally show ?thesis using False by (simp add: d_def b_def)
  qed
qed

lemma filter_not_full:
  "filter (\<lambda>y. y \<notin> set (fullRows g)) [0 .. rows g - 1] = filter (\<lambda>y. \<not> is_full g y) [0 .. rows g - 1]"
  by (rule filter_cong) (auto simp: fullRows_def)

lemma length_kept:
  "int (length (filter (\<lambda>y. \<not> is_full g y) [0 .. rows g - 1])) + int (length (fullRows g))
     = (if 0 \<le> rows g then rows g else 0)"
proof -
  have "length (filter (is_full g) [0 .. rows g - 1]) + length (filter (\<lambda>y. \<not> is_full g y) [0 .. rows g - 1])
      = length [0 .. rows g - 1]"
    by (rule sum_length_filter_compl)
  then have "int (length (filter (is_full g) [0 .. rows g - 1]))
      + int (length (filter (\<lambda>y. \<not> is_full g y) [0 .. rows g - 1])) = int (nat (rows g))"
    by (simp flip: of_nat_add)
  then show ?thesis by (simp add: fullRows_def)
qed

lemma clearLines_wf:
  assumes "wf_board g"
  shows "clearLines g = Inr (int (length (fullRows g)), compacted g)"
proof (cases "fullRows g = []")
  case True
  then show ?thesis by (simp add: clearLines_def scan_rows_all[OF assms] compacted_def)
next
  case False
  then have "[0 .. rows g - 1] \<noteq> []" by (auto simp: fullRows_def)
  then have r: "0 < rows g" by simp
  have c: "0 \<le> cols g" using wf_cols_nonneg[OF assms r] .
  let ?kept = "filter (\<lambda>y. \<not> is_full g y) [0 .. rows g - 1]"
  let ?n = "length (fullRows g)"
  define ng where "ng = replicate (nat (rows g * cols g)) emptyBlock"
  have lenng: "length ng = length (grid g)" using assms by (simp add: ng_def wf_board_def)
  have alloc: "new_grid (rows g * cols g) = Inr ng"
    using r c by (simp add: new_grid_def ng_def not_less mult_nonneg_nonneg)
  have k: "int (length ?kept) = rows g - int ?n" using length_kept[of g] r by simp
  have cr: "compact_rows g (fullRows g) (rev [0 .. rows g - 1]) (rows g - 1) ng =
       Inr (take (nat ((rows g - 1 + 1 - int (length (filter (\<lambda>y. y \<notin> set (fullRows g)) (rev [0 .. rows g - 1])))) * cols g)) ng
            @ concat (map (row_of g) (rev (filter (\<lambda>y. y \<notin> set (fullRows g)) (rev [0 .. rows g - 1]))))
            @ drop (nat ((rows g - 1 + 1) * cols g)) ng)"
    using r lenng k by (intro compact_rows_wf[OF assms]) (auto simp: filter_not_full simp flip: rev_filter)
  have f: "rev (filter (\<lambda>y. y \<notin> set (fullRows g)) (rev [0 .. rows g - 1])) = ?kept"
    by (simp add: filter_not_full flip: rev_filter)
  have l: "length (filter (\<lambda>y. y \<notin> set (fullRows g)) (rev [0 .. rows g - 1])) = length ?kept"
    by (simp add: filter_not_full flip: rev_filter)
  have nn: "nat (int ?n * cols g) = ?n * nat (cols g)" using c by (simp add: nat_mult_distrib)
  have "int ?n * cols g \<le> rows g * cols g" using k c by (intro mult_right_mono) auto
  then have le: "?n * nat (cols g) \<le> nat (rows g * cols g)" using nn by (metis nat_mono)
  have tk: "take (?n * nat (cols g)) ng = replicate (?n * nat (cols g)) emptyBlock"
    using le by (simp add: ng_def min_def)
  have cr': "compact_rows g (fullRows g) (rev [0 .. rows g - 1]) (rows g - 1) ng =
       Inr (replicate (?n * nat (cols g)) emptyBlock @ concat (map (row_of g) ?kept))"
    unfolding cr f l using k nn tk lenng by (simp add: ng_def)
  show ?thesis
    using False by (simp add: clearLines_def scan_rows_all[OF assms] alloc cr' compacted_def)
qed

lemma nth_concat_rows:
  "\<lbrakk>\<forall>r\<in>set rs. length r = C; i < length rs; x < C\<rbrakk> \<Longrightarrow> concat rs ! (i * C + x) = rs ! i ! x"
proof (induction rs arbitrary: i)
  case Nil
  then show ?case by simp
next
  case (Cons r rs)
  show ?case
  proof (cases i)
    case 0
    then show ?thesis using Cons.prems by (simp add: nth_append)
  next
    case (Suc i')
    then have "concat rs ! (i' * C + x) = rs ! i' ! x" using Cons by simp
    moreover have "(r @ concat rs) ! (C + (i' * C + x)) = concat rs ! (i' * C + x)"
      using Cons.prems(1) by (simp add: nth_append)
    ultimately show ?thesis using Suc by (simp add: add.assoc)
  qed
qed

lemma row_of_nth: "0 \<le> x \<Longrightarrow> x < cols g \<Longrightarrow> row_of g y ! nat x = cell g y x"
  by (simp add: row_of_def)

lemma compacted_dims [simp]: "rows (compacted g) = rows g" "cols (compacted g) = cols g"
  by (simp_all add: compacted_def)

lemma wf_compacted:
  assumes "wf_board g"
  shows "wf_board (compacted g)"
proof (cases "fullRows g = []")
  case True
  then show ?thesis using assms by (simp add: compacted_def)
next
  case False
  then have "[0 .. rows g - 1] \<noteq> []" by (auto simp: fullRows_def)
  then have r: "0 < rows g" by simp
  have c: "0 \<le> cols g" using wf_cols_nonneg[OF assms r] .
  let ?kept = "filter (\<lambda>y. \<not> is_full g y) [0 .. rows g - 1]"
  have k: "int (length ?kept) + int (length (fullRows g)) = rows g"
    using length_kept[of g] r by simp
  have "length (concat (map (row_of g) ?kept)) = length ?kept * nat (cols g)"
    by (simp add: length_concat comp_def length_row_of sum_list_triv)
  then have "int (length (grid (compacted g))) = (int (length (fullRows g)) + int (length ?kept)) * cols g"
    using False c by (simp add: compacted_def algebra_simps)
  then show ?thesis using k by (simp add: wf_board_def add.commute)
qed

lemma cell_compacted:
  assumes "wf_board g" "fullRows g \<noteq> []" "0 \<le> x" "x < cols g" "0 \<le> y" "y < rows g"
  shows "cell (compacted g) y x =
     (if y < int (length (fullRows g)) then emptyBlock
      else cell g (filter (\<lambda>y. \<not> is_full g y) [0 .. rows g - 1] ! nat (y - int (length (fullRows g)))) x)"
proof -
  let ?kept = "filter (\<lambda>y. \<not> is_full g y) [0 .. rows g - 1]"
  let ?n = "length (fullRows g)"
  let ?C = "nat (cols g)"
  have k: "int (length ?kept) + int ?n = rows g" using length_kept[of g] assms(5,6) by simp
  have idx: "nat (y * cols g + x) = nat y * ?C + nat x"
    using assms(3-5) by (simp add: nat_add_distrib nat_mult_distrib)
  have g': "grid (compacted g) = replicate (?n * ?C) emptyBlock @ concat (map (row_of g) ?kept)"
    using assms(2) by (simp add: compacted_def)
  show ?thesis
  proof (cases "y < int ?n")
    case True
    then have "nat y < ?n" using assms(5) by simp
    then have "nat y * ?C + ?C \<le> ?n * ?C"
      by (metis Suc_leI mult_Suc mult_le_mono1 add.commute)
    moreover have "nat x < ?C" using assms(3,4) by simp
    ultimately have "nat y * ?C + nat x < ?n * ?C" by linarith
    then show ?thesis using True by (simp add: cell_def idx g' nth_append)
  next
    case False
    define i where "i = nat y - ?n"
    have ny: "nat y = ?n + i" using False assms(5) by (simp add: i_def)
    have i: "i < length ?kept" using k assms(5,6) ny by linarith
    have xC: "nat x < ?C" using assms(3,4) by simp
    have "\<not> nat y * ?C + nat x < ?n * ?C" using ny by (simp add: algebra_simps)
    moreover have "nat y * ?C + nat x - ?n * ?C = i * ?C + nat x" using ny by (simp add: algebra_simps)
    ultimately have "grid (compacted g) ! (nat y * ?C + nat x) = concat (map (row_of g) ?kept) ! (i * ?C + nat x)"
      by (simp add: g' nth_append)
    also have "\<dots> = map (row_of g) ?kept ! i ! nat x"
      using i xC by (intro nth_concat_rows) (auto simp: length_row_of)
    also have "\<dots> = cell g (?kept ! i) x" using i assms(3,4) by (simp add: row_of_nth)
    finally show ?thesis
      using False assms(5) by (simp add: cell_def idx i_def nat_diff_distrib)
  qed
qed

lemma is_full_iff: "is_full g y \<longleftrightarrow> (\<forall>x. 0 \<le> x \<and> x < cols g \<longrightarrow> occupied (cell g y x))"
  by (auto simp: is_full_def list_all_iff)

lemma fullRows_empty_iff: "fullRows g = [] \<longleftrightarrow> (\<forall>y. 0 \<le> y \<and> y < rows g \<longrightarrow> \<not> is_full g y)"
  by (auto simp: fullRows_def filter_empty_conv)

lemma no_full_rows_compacted:
  assumes "wf_board g" "0 < cols g"
  shows "fullRows (compacted g) = []"
proof (cases "fullRows g = []")
  case True
  then show ?thesis by (simp add: compacted_def)
next
  case False
  let ?kept = "filter (\<lambda>y. \<not> is_full g y) [0 .. rows g - 1]"
  let ?n = "length (fullRows g)"
  have "\<not> is_full (compacted g) y" if y: "0 \<le> y" "y < rows g" for y
  proof (cases "y < int ?n")
    case True
    then have "cell (compacted g) y 0 = emptyBlock"
      using cell_compacted[OF assms(1) False _ assms(2) y] by simp
    then show ?thesis using assms(2) by (auto simp: is_full_iff emptyBlock_def)
  next
    case nf: False
    have k: "int (length ?kept) + int ?n = rows g" using length_kept[of g] y by simp
    define i where "i = nat (y - int ?n)"
    have "i < length ?kept" using k y nf by (simp add: i_def)
    then have "?kept ! i \<in> set ?kept" by (rule nth_mem)
    then have "\<not> is_full g (?kept ! i)" by (simp del: nth_mem)
    then obtain x where x: "0 \<le> x" "x < cols g" "\<not> occupied (cell g (?kept ! i) x)"
      by (auto simp: is_full_iff)
    have "cell (compacted g) y x = cell g (?kept ! i) x"
      using cell_compacted[OF assms(1) False x(1,2) y] nf by (simp add: i_def)
    then show ?thesis using x by (auto simp: is_full_iff)
  qed
  then show ?thesis by (simp add: fullRows_empty_iff)
qed

text \<open>
  Claim C1. On every board \<^verbatim>\<open>clearLines\<close> returns the number of full rows, a row being
  full when every column of it is occupied. When no row is full that is 0 and the board is
  unchanged. Otherwise the rows that are not full are moved down, bottom-aligned and in their
  order, with every cell as it was, and the rows above them consist of empty cells.
\<close>

theorem clearLines_compacts:
  assumes "wf_board g"
  shows "clearLines g = Inr (int (length (fullRows g)), compacted g)
     \<and> (fullRows g = [] \<longrightarrow> compacted g = g)
     \<and> (fullRows g \<noteq> [] \<longrightarrow>
          rows (compacted g) = rows g \<and> cols (compacted g) = cols g
          \<and> (\<forall>y x. 0 \<le> y \<and> y < rows g \<and> 0 \<le> x \<and> x < cols g \<longrightarrow>
                cell (compacted g) y x =
                  (if y < int (length (fullRows g)) then emptyBlock
                   else cell g (filter (\<lambda>y. \<not> is_full g y) [0 .. rows g - 1]
                                 ! nat (y - int (length (fullRows g)))) x)))"
proof (intro conjI impI allI)
  show "clearLines g = Inr (int (length (fullRows g)), compacted g)"
    by (rule clearLines_wf[OF assms])
  show "compacted g = g" if "fullRows g = []"
    using that by (simp add: compacted_def)
  show "rows (compacted g) = rows g" "cols (compacted g) = cols g"
    by simp_all
  show "cell (compacted g) y x =
      (if y < int (length (fullRows g)) then emptyBlock
       else cell g (filter (\<lambda>y. \<not> is_full g y) [0 .. rows g - 1]
                     ! nat (y - int (length (fullRows g)))) x)"
    if "fullRows g \<noteq> []" "0 \<le> y \<and> y < rows g \<and> 0 \<le> x \<and> x < cols g" for y x
    using cell_compacted[OF assms that(1), of x y] that(2) by simp
qed

lemma upto_0_2: "[0 .. 2 :: int] = [0, 1, 2]" "[0 .. 1 :: int] = [0, 1]"
  by (simp_all add: upto_rec1)

theorem clearLines_compacts_witness:
  "clearLines board32 =
     Inr (1, \<lparr>rows = 3, cols = 2,
              grid = [emptyBlock, emptyBlock,
                      emptyBlock, \<lparr>cellColor = 11, occupied = True\<rparr>,
                      \<lparr>cellColor = 14, occupied = True\<rparr>, emptyBlock]\<rparr>)
   \<and> clearLines board22 = Inr (0, board22)"
proof -
  have w: "wf_board board32" "wf_board board22"
    by (simp_all add: wf_board_def board32_def board22_def)
  have f: "is_full board32 1" "\<not> is_full board32 0" "\<not> is_full board32 2"
    by (simp_all add: is_full_def board32_def cell_def upto_0_2 emptyBlock_def)
  have f2: "\<not> is_full board22 0" "\<not> is_full board22 1"
    by (simp_all add: is_full_def board22_def cell_def upto_0_2 emptyBlock_def)
  have fr: "fullRows board32 = [1]" "fullRows board22 = []"
    using f f2 by (simp_all add: fullRows_def board32_def board22_def upto_0_2)
  have k: "filter (\<lambda>y. \<not> is_full board32 y) [0 .. rows board32 - 1] = [0, 2]"
    using f by (simp add: board32_def upto_0_2)
  have c: "compacted board32 = \<lparr>rows = 3, cols = 2,
              grid = [emptyBlock, emptyBlock,
                      emptyBlock, \<lparr>cellColor = 11, occupied = True\<rparr>,
                      \<lparr>cellColor = 14, occupied = True\<rparr>, emptyBlock]\<rparr>"
    unfolding compacted_def fr k
    by (simp add: board32_def row_of_def cell_def upto_0_2 numeral_2_eq_2)
  show ?thesis
    using clearLines_compacts[OF w(1)] clearLines_compacts[OF w(2)] fr c by simp
qed

section \<open>Locking a piece\<close>

lemma index_inj:
  assumes "0 \<le> x" "x < c" "0 \<le> x'" "x' < c" "y * c + x = y' * c + (x'::int)"
  shows "x = x' \<and> y = y'"
proof -
  have "x = (y * c + x) mod c" using assms(1,2) by simp
  also have "\<dots> = (y' * c + x') mod c" by (simp only: assms(5))
  also have "\<dots> = x'" using assms(3,4) by simp
  finally have x: "x = x'" .
  have "y = (y * c + x) div c" using assms(1,2) by simp
  also have "\<dots> = (y' * c + x') div c" by (simp only: assms(5))
  also have "\<dots> = y'" using assms(3,4) by simp
  finally have "y = y'" .
  with x show ?thesis by simp
qed

lemma lock_blocks_wf:
  "wf_board g \<Longrightarrow>
   \<exists>g'. lock_blocks g cp bs = Inr g' \<and> rows g' = rows g \<and> cols g' = cols g \<and> wf_board g'
      \<and> (\<forall>x y. 0 \<le> x \<and> x < cols g \<and> 0 \<le> y \<and> y < rows g \<longrightarrow>
             cell g' y x = (if Position x y \<in> set bs then \<lparr>cellColor = cp, occupied = True\<rparr>
                            else cell g y x))"
proof (induction bs arbitrary: g)
  case Nil
  then show ?case by simp
next
  case (Cons b bs)
  show ?case
  proof (cases "isInside g b")
    case False
    obtain g' where g': "lock_blocks g cp bs = Inr g'" "rows g' = rows g" "cols g' = cols g"
      "wf_board g'"
      "\<forall>x y. 0 \<le> x \<and> x < cols g \<and> 0 \<le> y \<and> y < rows g \<longrightarrow>
             cell g' y x = (if Position x y \<in> set bs then \<lparr>cellColor = cp, occupied = True\<rparr>
                            else cell g y x)"
      using Cons.IH[OF Cons.prems] by blast
    have "Position x y \<noteq> b" if "0 \<le> x \<and> x < cols g \<and> 0 \<le> y \<and> y < rows g" for x y
      using False that by (auto simp: isInside_def)
    then show ?thesis using False g' by auto
  next
    case True
    define k where "k = pos_y b * cols g + pos_x b"
    have kr: "0 \<le> k \<and> k < int (length (grid g))"
      using inside_index[OF Cons.prems, of "pos_x b" "pos_y b"] True
      by (simp add: isInside_def k_def)
    define g1 where "g1 = g\<lparr>grid := (grid g)[nat k := \<lparr>cellColor = cp, occupied = True\<rparr>]\<rparr>"
    have w1: "wf_board g1" using Cons.prems by (simp add: wf_board_def g1_def)
    have d1: "rows g1 = rows g" "cols g1 = cols g" by (simp_all add: g1_def)
    have st: "lock_blocks g cp (b # bs) = lock_blocks g1 cp bs"
      using True kr by (simp add: grid_set_def g1_def k_def)
    have c1: "cell g1 y x = (if Position x y = b then \<lparr>cellColor = cp, occupied = True\<rparr>
                             else cell g y x)"
      if xy: "0 \<le> x \<and> x < cols g \<and> 0 \<le> y \<and> y < rows g" for x y
    proof -
      have ir: "0 \<le> y * cols g + x \<and> y * cols g + x < int (length (grid g))"
        using inside_index[OF Cons.prems, of x y] xy by simp
      have eq: "(nat (y * cols g + x) = nat k) = (Position x y = b)"
      proof
        assume "nat (y * cols g + x) = nat k"
        then have "y * cols g + x = pos_y b * cols g + pos_x b"
          using ir kr unfolding k_def by (simp add: eq_nat_nat_iff)
        then have "x = pos_x b \<and> y = pos_y b"
          using index_inj[of x "cols g" "pos_x b" y "pos_y b"] xy True by (simp add: isInside_def)
        then show "Position x y = b" by auto
      next
        assume "Position x y = b"
        then show "nat (y * cols g + x) = nat k" by (auto simp: k_def)
      qed
      have kl: "nat k < length (grid g)" using kr by (simp add: nat_less_iff)
      show ?thesis
        using eq kl by (auto simp: cell_def g1_def nth_list_update)
    qed
    obtain g' where g': "lock_blocks g1 cp bs = Inr g'" "rows g' = rows g1" "cols g' = cols g1"
      "wf_board g'"
      "\<forall>x y. 0 \<le> x \<and> x < cols g1 \<and> 0 \<le> y \<and> y < rows g1 \<longrightarrow>
             cell g' y x = (if Position x y \<in> set bs then \<lparr>cellColor = cp, occupied = True\<rparr>
                            else cell g1 y x)"
      using Cons.IH[OF w1] by blast
    show ?thesis
      using g' c1 d1 unfolding st by auto
  qed
qed

lemma lockTetromino_cells:
  assumes "wf_board g"
  obtains g' where "lockTetromino g t = Inr g'" "rows g' = rows g" "cols g' = cols g" "wf_board g'"
    "\<And>x y. \<lbrakk>0 \<le> x; x < cols g; 0 \<le> y; y < rows g\<rbrakk> \<Longrightarrow>
        cell g' y x = (if Position x y \<in> set (blocks t)
                       then \<lparr>cellColor = colorPair t, occupied = True\<rparr> else cell g y x)"
  using lock_blocks_wf[OF assms, of "colorPair t" "blocks t"] unfolding lockTetromino_def by blast

lemma lockTetromino_wf:
  assumes "wf_board g"
  obtains g' where "lockTetromino g t = Inr g'" "rows g' = rows g" "cols g' = cols g" "wf_board g'"
    "\<And>x y. \<lbrakk>0 \<le> x; x < cols g; 0 \<le> y; y < rows g\<rbrakk> \<Longrightarrow>
        occupied (cell g' y x) = (occupied (cell g y x) \<or> Position x y \<in> set (blocks t))"
proof -
  obtain g' where g': "lockTetromino g t = Inr g'" "rows g' = rows g" "cols g' = cols g"
    "wf_board g'"
    "\<And>x y. \<lbrakk>0 \<le> x; x < cols g; 0 \<le> y; y < rows g\<rbrakk> \<Longrightarrow>
        cell g' y x = (if Position x y \<in> set (blocks t)
                       then \<lparr>cellColor = colorPair t, occupied = True\<rparr> else cell g y x)"
    using lockTetromino_cells[OF assms, of t] by metis
  have "occupied (cell g' y x) = (occupied (cell g y x) \<or> Position x y \<in> set (blocks t))"
    if "0 \<le> x" "x < cols g" "0 \<le> y" "y < rows g" for x y
    using g'(5)[OF that] by simp
  then show ?thesis using that g'(1-4) by blast
qed

lemma full_rows_after_lock:
  assumes "wf_board g" "fullRows g = []" "lockTetromino g t = Inr g1"
  shows "length (fullRows g1) \<le> length (blocks t)"
proof -
  obtain g' where g': "lockTetromino g t = Inr g'" "rows g' = rows g" "cols g' = cols g"
    "\<And>x y. \<lbrakk>0 \<le> x; x < cols g; 0 \<le> y; y < rows g\<rbrakk> \<Longrightarrow>
        occupied (cell g' y x) = (occupied (cell g y x) \<or> Position x y \<in> set (blocks t))"
    using lockTetromino_wf[OF assms(1), of t] by metis
  have eq: "g' = g1" using g'(1) assms(3) by simp
  have sub: "set (fullRows g1) \<subseteq> pos_y ` set (blocks t)"
  proof
    fix y assume "y \<in> set (fullRows g1)"
    then have y: "0 \<le> y" "y < rows g" "is_full g1 y"
      using g'(2) eq by (auto simp: fullRows_def)
    have "\<not> is_full g y" using assms(2) y by (simp add: fullRows_empty_iff)
    then obtain x where x: "0 \<le> x" "x < cols g" "\<not> occupied (cell g y x)"
      by (auto simp: is_full_iff)
    have "occupied (cell g1 y x)" using y(3) x g'(3) eq by (simp add: is_full_iff)
    then have "Position x y \<in> set (blocks t)" using g'(4)[OF x(1,2) y(1,2)] x(3) eq by simp
    then show "y \<in> pos_y ` set (blocks t)" by force
  qed
  have "distinct (fullRows g1)" by (simp add: fullRows_def)
  then have "length (fullRows g1) = card (set (fullRows g1))" by (simp add: distinct_card)
  also have "\<dots> \<le> card (pos_y ` set (blocks t))" using sub by (simp add: card_mono)
  also have "\<dots> \<le> card (set (blocks t))" by (simp add: card_image_le)
  also have "\<dots> \<le> length (blocks t)" by (rule card_length)
  finally show ?thesis .
qed

section \<open>Scoring\<close>

lemma tdiv_nonneg: "0 \<le> a \<Longrightarrow> 0 < b \<Longrightarrow> tdiv a b = a div b"
  by (cases "a = 0") (simp_all add: tdiv_def sgn_if)

lemma lineScores_at_range:
  assumes "0 \<le> n" "n \<le> 4"
  shows "lineScores_at n = Inr ([0, 40, 100, 300, 1200] ! nat n)"
  using assms by (simp add: lineScores_at_def lineScores_def)

lemma update_score_range:
  assumes "0 \<le> n" "n \<le> 4"
  shows "update_score s n =
     Inr (s\<lparr>score := score s + [0, 40, 100, 300, 1200] ! nat n * level s,
           totalLines := totalLines s + n,
           level := tdiv (totalLines s + n) 10 + 1,
           dropIntervalMs := max 100 (800 - (tdiv (totalLines s + n) 10 + 1) * 50),
           highscore := (if highscore s < score s + [0, 40, 100, 300, 1200] ! nat n * level s
                         then score s + [0, 40, 100, 300, 1200] ! nat n * level s
                         else highscore s)\<rparr>)"
  by (simp add: update_score_def lineScores_at_range[OF assms] Let_def)

lemma lock_event_unfold:
  assumes "lockTetromino (game s) (tetromino s) = Inr g1" "clearLines g1 = Inr (n, g2)"
    and "wf_board g2" "(if 0 < n then update_score s n else Inr s) = Inr s1"
  shows "lock_event s r =
     Inr ((s1\<lparr>game := g2, tetromino := nextT s1, nextT := snd (getNewTetromino r),
                nextIdx := fst (getNewTetromino r)\<rparr>)
           \<lparr>gameOver := (collides g2 (nextT s1) \<or> gameOver s1)\<rparr>)"
proof -
  have "lock_event s r =
      bindE (if 0 < n then update_score s n else Inr s)
        (\<lambda>s1. let (idx, fresh) = getNewTetromino r;
                   s2 = s1\<lparr>game := g2, tetromino := nextT s1, nextT := fresh, nextIdx := idx\<rparr>
               in bindE (checkCollision (game s2) (tetromino s2))
                    (\<lambda>hit. Inr (if hit then s2\<lparr>gameOver := True\<rparr> else s2)))"
    by (simp add: lock_event_def assms(1,2))
  also have "\<dots> = Inr ((s1\<lparr>game := g2, tetromino := nextT s1, nextT := snd (getNewTetromino r),
                nextIdx := fst (getNewTetromino r)\<rparr>)
           \<lparr>gameOver := (collides g2 (nextT s1) \<or> gameOver s1)\<rparr>)"
    unfolding assms(4)
    by (simp add: checkCollision_wf assms(3) Let_def split_beta)
  finally show ?thesis .
qed

lemma upto_0_3: "[0 .. 3 :: int] = [0, 1, 2, 3]"
  by (simp add: upto_rec1)

lemma level3_lock: "lockTetromino (game level3_state) (tetromino level3_state) = Inr board42_locked"
  by (simp add: level3_state_def lockTetromino_def board42_def board42_locked_def isInside_def
      grid_set_def)

lemma board42_locked_clear: "clearLines board42_locked = Inr (2, board42_cleared)"
proof -
  have w: "wf_board board42_locked" by (simp add: wf_board_def board42_locked_def)
  have f: "\<not> is_full board42_locked 0" "\<not> is_full board42_locked 1"
      "is_full board42_locked 2" "is_full board42_locked 3"
    by (simp_all add: is_full_def board42_locked_def cell_def upto_0_2 emptyBlock_def)
  have fr: "fullRows board42_locked = [2, 3]"
    using f by (simp add: fullRows_def board42_locked_def upto_0_3)
  have k: "filter (\<lambda>y. \<not> is_full board42_locked y) [0 .. rows board42_locked - 1] = [0, 1]"
    using f by (simp add: board42_locked_def upto_0_3)
  have c: "compacted board42_locked = board42_cleared"
    unfolding compacted_def fr k
    by (simp add: board42_locked_def board42_cleared_def row_of_def cell_def upto_0_2 numeral_2_eq_2)
  show ?thesis by (simp add: clearLines_wf[OF w] fr c)
qed

text \<open>
  Claim C4. At a lock event that clears \<open>cleared\<close> rows, 1 to 4 of them: the score grows by
  \<open>[0, 40, 100, 300, 1200] ! cleared\<close> times the level before the update, \<^verbatim>\<open>totalLines\<close>
  grows by \<open>cleared\<close>, the level becomes \<^verbatim>\<open>totalLines / 10 + 1\<close> (C++ division, which is
  \<open>div\<close> on a total that is not negative), the drop interval becomes
  \<open>max 100 (800 - level * 50)\<close> and the high score becomes the score when the score exceeds
  it. When no row is cleared none of the five changes.
\<close>

theorem lock_event_scoring:
  assumes "lockTetromino (game s) (tetromino s) = Inr g1"
    and "clearLines g1 = Inr (cleared, g2)"
    and "0 \<le> cleared" and "cleared \<le> 4" and "wf_board g2"
  shows "\<exists>s'. lock_event s r = Inr s'
     \<and> (0 < cleared \<longrightarrow>
           score s' = score s + [0, 40, 100, 300, 1200] ! nat cleared * level s
         \<and> totalLines s' = totalLines s + cleared
         \<and> level s' = tdiv (totalLines s') 10 + 1
         \<and> (0 \<le> totalLines s' \<longrightarrow> level s' = totalLines s' div 10 + 1)
         \<and> dropIntervalMs s' = max 100 (800 - level s' * 50)
         \<and> highscore s' = (if highscore s < score s' then score s' else highscore s))
     \<and> (cleared = 0 \<longrightarrow>
           score s' = score s \<and> totalLines s' = totalLines s \<and> level s' = level s
         \<and> dropIntervalMs s' = dropIntervalMs s \<and> highscore s' = highscore s)"
proof (cases "0 < cleared")
  case True
  show ?thesis
    using True
    by (simp add: lock_event_unfold[OF assms(1,2,5), of _ r] update_score_range[OF assms(3,4)]
        tdiv_nonneg)
next
  case False
  then have "cleared = 0" using assms(3) by simp
  then show ?thesis
    by (simp add: lock_event_unfold[OF assms(1,2,5), of s r])
qed

theorem lock_event_scoring_witness:
  "\<exists>s'. lock_event level3_state 0 = Inr s'
      \<and> score s' = 1300 \<and> totalLines s' = 31 \<and> level s' = 4
      \<and> dropIntervalMs s' = 600 \<and> highscore s' = 1300"
proof -
  have w: "wf_board board42_cleared" by (simp add: wf_board_def board42_cleared_def)
  obtain s' where s': "lock_event level3_state 0 = Inr s'"
    "0 < (2::int) \<longrightarrow>
           score s' = score level3_state + [0, 40, 100, 300, 1200] ! nat 2 * level level3_state
         \<and> totalLines s' = totalLines level3_state + 2
         \<and> level s' = tdiv (totalLines s') 10 + 1
         \<and> (0 \<le> totalLines s' \<longrightarrow> level s' = totalLines s' div 10 + 1)
         \<and> dropIntervalMs s' = max 100 (800 - level s' * 50)
         \<and> highscore s' = (if highscore level3_state < score s' then score s' else highscore level3_state)"
    using lock_event_scoring[OF level3_lock board42_locked_clear _ _ w, of 0] by auto
  have sel: "score level3_state = 1000" "level level3_state = 3" "totalLines level3_state = 29"
    "highscore level3_state = 1200"
    by (simp_all add: level3_state_def)
  have 1: "score s' = 1300" "totalLines s' = 31" using s'(2) by (simp_all add: sel numeral_2_eq_2)
  have 2: "level s' = 4" using s'(2) 1 by simp
  have 3: "dropIntervalMs s' = 600" "highscore s' = 1300" using s'(2) 1 2 by (simp_all add: sel)
  show ?thesis using s'(1) 1 2 3 by simp
qed

section \<open>Dropping a piece\<close>

lemma lowered_0 [simp]: "lowered t 0 = t"
  by (simp add: lowered_def)

lemma lowered_move_down: "lowered (move t VEC_DOWN) n = lowered t (Suc n)"
  by (simp add: lowered_def move_def pos_add_def VEC_DOWN_def comp_def add.commute add.left_commute)

lemma move_down_lowered: "move (lowered t n) VEC_DOWN = lowered t (Suc n)"
  by (simp add: lowered_def move_def pos_add_def VEC_DOWN_def comp_def add.commute add.left_commute)

lemma move_up_lowered: "move (lowered t (Suc n)) (Position 0 (- 1)) = lowered t n"
  by (simp add: lowered_def move_def pos_add_def comp_def)

lemma blocks_lowered: "length (blocks (lowered t n)) = length (blocks t)"
  by (simp add: lowered_def)

lemma ghost_loop_lands:
  assumes "wf_board g"
  shows "\<lbrakk>collides g (lowered t n); \<forall>k<n. \<not> collides g (lowered t k)\<rbrakk>
     \<Longrightarrow> ghost_loop g t = Some (Inr (lowered t n))"
proof (induction n arbitrary: t)
  case 0
  then show ?case
    by (subst ghost_loop.simps) (simp add: checkCollision_wf[OF assms])
next
  case (Suc n)
  have nc: "\<not> collides g t" using Suc.prems(2)[rule_format, of 0] by simp
  have "ghost_loop g (move t VEC_DOWN) = Some (Inr (lowered (move t VEC_DOWN) n))"
  proof (rule Suc.IH)
    show "collides g (lowered (move t VEC_DOWN) n)"
      using Suc.prems(1) by (simp add: lowered_move_down)
    show "\<forall>k<n. \<not> collides g (lowered (move t VEC_DOWN) k)"
      using Suc.prems(2) by (simp add: lowered_move_down)
  qed
  then show ?case
    by (subst ghost_loop.simps) (simp add: checkCollision_wf[OF assms] nc lowered_move_down)
qed

lemma drop_loop_lands:
  "\<lbrakk>wf_board (game s); collides (game s) (lowered (tetromino s) n);
    \<forall>k<n. \<not> collides (game s) (lowered (tetromino s) k)\<rbrakk>
     \<Longrightarrow> drop_loop s = Some (Inr (s\<lparr>tetromino := lowered (tetromino s) n\<rparr>))"
proof (induction n arbitrary: s)
  case 0
  then show ?case
    by (subst drop_loop.simps) (simp add: checkCollision_wf)
next
  case (Suc n)
  have nc: "\<not> collides (game s) (tetromino s)" using Suc.prems(3)[rule_format, of 0] by simp
  let ?s1 = "s\<lparr>tetromino := move (tetromino s) VEC_DOWN\<rparr>"
  have "drop_loop ?s1 = Some (Inr (?s1\<lparr>tetromino := lowered (tetromino ?s1) n\<rparr>))"
  proof (rule Suc.IH)
    show "wf_board (game ?s1)" using Suc.prems(1) by simp
    show "collides (game ?s1) (lowered (tetromino ?s1) n)"
      using Suc.prems(2) by (simp add: lowered_move_down)
    show "\<forall>k<n. \<not> collides (game ?s1) (lowered (tetromino ?s1) k)"
      using Suc.prems(3) by (simp add: lowered_move_down)
  qed
  then show ?case
    by (subst drop_loop.simps) (simp add: checkCollision_wf Suc.prems(1) nc lowered_move_down)
qed

lemma eventually_collides:
  assumes "blocks t \<noteq> []"
  shows "\<exists>n. collides g (lowered t n)"
proof -
  obtain b bs where b: "blocks t = b # bs" using assms by (cases "blocks t") auto
  have "\<not> isInside g (Position (pos_x b) (pos_y b + int (nat (rows g - pos_y b))))"
    by (simp add: isInside_def)
  then have "collides g (lowered t (nat (rows g - pos_y b)))"
    by (simp add: collides_def lowered_def b)
  then show ?thesis ..
qed

lemma landing_exists:
  assumes "blocks t \<noteq> []"
  shows "\<exists>n. collides g (lowered t n) \<and> (\<forall>k<n. \<not> collides g (lowered t k))"
  using eventually_collides[OF assms, of g] by (simp add: exists_least_iff[symmetric])

lemma to_ms_ten_seconds:
  assumes "clock \<le> now"
  shows "10000 \<le> to_ms (now - (clock - seconds 10))"
proof -
  have "(10000000000::int) \<le> now - (clock - seconds 10)" using assms by (simp add: seconds_def)
  then have a: "(0::int) \<le> now - (clock - seconds 10)" and
     d: "(10000000000::int) div 1000000 \<le> (now - (clock - seconds 10)) div 1000000"
    by (simp, intro zdiv_mono1, simp_all)
  have "to_ms (now - (clock - seconds 10)) = (now - (clock - seconds 10)) div 1000000"
    using a unfolding to_ms_def tdiv_def
    by (cases "now - (clock - seconds 10) = 0") (simp_all add: sgn_if)
  then show ?thesis using d by simp
qed

lemma gravity_locks:
  assumes "wf_board (game s)" "collides (game s) (move (tetromino s) VEC_DOWN)"
    and "dropIntervalMs s < to_ms (now - lastDrop s)"
  shows "gravity s now r = bindE (lock_event s r) (\<lambda>s'. Inr (s'\<lparr>lastDrop := now\<rparr>))"
  using assms by (simp add: gravity_def checkCollision_wf Let_def)

lemma I_up_lowered:
  "lowered piece_I_up k =
     \<lparr>blocks = [Position 8 (5 + int k), Position 8 (4 + int k), Position 8 (3 + int k),
                Position 8 (2 + int k)], colorPair = 11, shapeIdx = 1\<rparr>"
  by (simp add: lowered_def piece_I_up_def)

lemma I_up_ghost: "getGhost empty_board piece_I_up = Some (Inr piece_I_landed)"
proof -
  have c: "collides empty_board (lowered piece_I_up 15)"
    by (simp add: collides_empty_board I_up_lowered)
  have f: "\<forall>k<15. \<not> collides empty_board (lowered piece_I_up k)"
    by (simp add: collides_empty_board I_up_lowered)
  have "ghost_loop empty_board piece_I_up = Some (Inr (lowered piece_I_up 15))"
    by (rule ghost_loop_lands[OF wf_empty_board c f])
  then show ?thesis
    by (simp add: getGhost_def I_up_lowered piece_I_landed_def move_def pos_add_def)
qed

lemma gravity_lock_result:
  assumes "wf_board (game s)" "collides (game s) (move (tetromino s) VEC_DOWN)"
    and "dropIntervalMs s < to_ms (now - lastDrop s)"
    and "lockTetromino (game s) (tetromino s) = Inr g1" "wf_board g1"
    and "length (fullRows g1) \<le> 4"
  shows "\<exists>s'. gravity s now r = Inr s' \<and> game s' = compacted g1 \<and> tetromino s' = nextT s
      \<and> lastDrop s' = now \<and> gameOver s' = (collides (compacted g1) (nextT s) \<or> gameOver s)"
proof -
  define n where "n = int (length (fullRows g1))"
  have cl: "clearLines g1 = Inr (n, compacted g1)" by (simp add: n_def clearLines_wf[OF assms(5)])
  have n4: "0 \<le> n" "n \<le> 4" using assms(6) by (simp_all add: n_def)
  have w2: "wf_board (compacted g1)" by (rule wf_compacted[OF assms(5)])
  obtain s1 where s1: "(if 0 < n then update_score s n else Inr s) = Inr s1"
      "nextT s1 = nextT s" "gameOver s1 = gameOver s"
    by (cases "0 < n") (simp_all add: update_score_range[OF n4])
  have "gravity s now r = bindE (lock_event s r) (\<lambda>s'. Inr (s'\<lparr>lastDrop := now\<rparr>))"
    by (rule gravity_locks[OF assms(1-3)])
  then show ?thesis
    by (simp add: lock_event_unfold[OF assms(4) cl w2 s1(1)] s1(2,3))
qed

lemma cell_empty_board:
  assumes "0 \<le> x" "x < 10" "0 \<le> y" "y < 20"
  shows "cell empty_board y x = emptyBlock"
proof -
  have "nat (y * 10 + x) < 200" using assms by simp
  then show ?thesis by (simp add: cell_def empty_board_def)
qed

lemma landed_lock:
  "\<exists>locked. lockTetromino empty_board piece_I_landed = Inr locked
     \<and> rows locked = 20 \<and> cols locked = 10
     \<and> (\<forall>x y. 0 \<le> x \<and> x < 10 \<and> 0 \<le> y \<and> y < 20 \<longrightarrow>
           cell locked y x = (if Position x y \<in> set (blocks piece_I_landed)
                              then \<lparr>cellColor = 11, occupied = True\<rparr> else emptyBlock))"
proof -
  obtain g' where g': "lockTetromino empty_board piece_I_landed = Inr g'"
    "rows g' = rows empty_board" "cols g' = cols empty_board"
    "\<And>x y. \<lbrakk>0 \<le> x; x < cols empty_board; 0 \<le> y; y < rows empty_board\<rbrakk> \<Longrightarrow>
        cell g' y x = (if Position x y \<in> set (blocks piece_I_landed)
                       then \<lparr>cellColor = colorPair piece_I_landed, occupied = True\<rparr>
                       else cell empty_board y x)"
    using lockTetromino_cells[OF wf_empty_board, of piece_I_landed] by metis
  have d: "rows empty_board = 20" "cols empty_board = 10" "colorPair piece_I_landed = 11"
    by (simp_all add: empty_board_def piece_I_landed_def)
  have "cell g' y x = (if Position x y \<in> set (blocks piece_I_landed)
                           then \<lparr>cellColor = 11, occupied = True\<rparr> else emptyBlock)"
    if "0 \<le> x \<and> x < 10 \<and> 0 \<le> y \<and> y < 20" for x y
    using g'(4)[of x y] that cell_empty_board[of x y] by (simp add: d)
  then show ?thesis using g'(1,2,3) by (simp add: d)
qed

text \<open>
  Claim C5. For an active piece (with at least one block) that does not collide, the hard-drop
  branch returns, and leaves the piece exactly where \<^verbatim>\<open>getGhost\<close> puts it, which also
  returns; \<^verbatim>\<open>lastDrop\<close> becomes the clock reading minus ten seconds. At any later clock
  reading, with a drop interval below ten seconds, the gravity check fires and takes the lock
  branch with that piece: \<^verbatim>\<open>lockTetromino\<close> writes the piece's colour and the occupied
  flag into the cells of its blocks, all of which were free cells of the board, and leaves
  every other cell as it was; the board after the gravity step is that board with its full
  rows cleared, the next piece is the active one and \<^verbatim>\<open>lastDrop\<close> is the new clock
  reading. (The step returns when at most four rows are full after the lock, which is so
  whenever the board had no full row and the piece has at most four blocks.)
\<close>

theorem hard_drop_is_ghost:
  assumes "wf_board (game s)" and "blocks (tetromino s) \<noteq> []"
    and "\<not> collides (game s) (tetromino s)"
  shows "\<exists>ghost locked. getGhost (game s) (tetromino s) = Some (Inr ghost)
      \<and> handle_input s CH_space clock =
          Some (Inr (s\<lparr>tetromino := ghost, lastDrop := clock - seconds 10\<rparr>))
      \<and> lockTetromino (game s) ghost = Inr locked
      \<and> list_all (\<lambda>b. isInside (game s) b
                     \<and> \<not> occupied (cell (game s) (pos_y b) (pos_x b))
                     \<and> cell locked (pos_y b) (pos_x b)
                         = \<lparr>cellColor = colorPair (tetromino s), occupied = True\<rparr>) (blocks ghost)
      \<and> (\<forall>x y. 0 \<le> x \<and> x < cols (game s) \<and> 0 \<le> y \<and> y < rows (game s)
                \<and> Position x y \<notin> set (blocks ghost)
             \<longrightarrow> cell locked y x = cell (game s) y x)
      \<and> (\<forall>now r. clock \<le> now \<and> dropIntervalMs s < 10000 \<longrightarrow>
            gravity (s\<lparr>tetromino := ghost, lastDrop := clock - seconds 10\<rparr>) now r =
              bindE (lock_event (s\<lparr>tetromino := ghost, lastDrop := clock - seconds 10\<rparr>) r)
                (\<lambda>s'. Inr (s'\<lparr>lastDrop := now\<rparr>))
          \<and> (length (fullRows locked) \<le> 4 \<longrightarrow>
                (\<exists>s'. gravity (s\<lparr>tetromino := ghost, lastDrop := clock - seconds 10\<rparr>) now r = Inr s'
                   \<and> game s' = compacted locked \<and> tetromino s' = nextT s \<and> lastDrop s' = now
                   \<and> gameOver s' = (collides (compacted locked) (nextT s) \<or> gameOver s))))
      \<and> (fullRows (game s) = [] \<and> length (blocks (tetromino s)) \<le> 4
             \<longrightarrow> length (fullRows locked) \<le> 4)"
proof -
  obtain n where n: "collides (game s) (lowered (tetromino s) n)"
      "\<forall>k<n. \<not> collides (game s) (lowered (tetromino s) k)"
    using landing_exists[OF assms(2)] by blast
  have "n \<noteq> 0" using n(1) assms(3) by (auto intro: ccontr)
  then obtain m where m: "n = Suc m" by (cases n) auto
  let ?ghost = "lowered (tetromino s) m"
  let ?s' = "s\<lparr>tetromino := ?ghost, lastDrop := clock - seconds 10\<rparr>"
  have g: "getGhost (game s) (tetromino s) = Some (Inr ?ghost)"
    by (simp add: getGhost_def ghost_loop_lands[OF assms(1) n] m move_up_lowered)
  have h: "handle_input s CH_space clock = Some (Inr ?s')"
    by (simp add: handle_input_def key_defs hard_drop_def drop_loop_lands[OF assms(1) n]
        m move_up_lowered)
  have free: "\<not> collides (game s) ?ghost" using n(2) m by simp
  obtain locked where lk: "lockTetromino (game s) ?ghost = Inr locked" "wf_board locked"
    "\<And>x y. \<lbrakk>0 \<le> x; x < cols (game s); 0 \<le> y; y < rows (game s)\<rbrakk> \<Longrightarrow>
        cell locked y x = (if Position x y \<in> set (blocks ?ghost)
                       then \<lparr>cellColor = colorPair ?ghost, occupied = True\<rparr>
                       else cell (game s) y x)"
    using lockTetromino_cells[OF assms(1), of ?ghost] by metis
  have cp: "colorPair ?ghost = colorPair (tetromino s)" by (simp add: lowered_def)
  have blocks_locked: "isInside (game s) b
                     \<and> \<not> occupied (cell (game s) (pos_y b) (pos_x b))
                     \<and> cell locked (pos_y b) (pos_x b)
                         = \<lparr>cellColor = colorPair (tetromino s), occupied = True\<rparr>"
    if b: "b \<in> set (blocks ?ghost)" for b
  proof -
    have i: "isInside (game s) b" and f: "\<not> occupied (cell (game s) (pos_y b) (pos_x b))"
      using free b by (auto simp: collides_def list_ex_iff)
    have "Position (pos_x b) (pos_y b) \<in> set (blocks ?ghost)" using b by simp
    then have "cell locked (pos_y b) (pos_x b) = \<lparr>cellColor = colorPair ?ghost, occupied = True\<rparr>"
      using lk(3)[of "pos_x b" "pos_y b"] i by (simp add: isInside_def)
    then show ?thesis using i f cp by simp
  qed
  then have a: "list_all (\<lambda>b. isInside (game s) b
                     \<and> \<not> occupied (cell (game s) (pos_y b) (pos_x b))
                     \<and> cell locked (pos_y b) (pos_x b)
                         = \<lparr>cellColor = colorPair (tetromino s), occupied = True\<rparr>) (blocks ?ghost)"
    by (simp add: list_all_iff)
  have o: "\<forall>x y. 0 \<le> x \<and> x < cols (game s) \<and> 0 \<le> y \<and> y < rows (game s)
                \<and> Position x y \<notin> set (blocks ?ghost)
             \<longrightarrow> cell locked y x = cell (game s) y x"
    using lk(3) by simp
  have l: "gravity ?s' now r = bindE (lock_event ?s' r) (\<lambda>s'. Inr (s'\<lparr>lastDrop := now\<rparr>))
      \<and> (length (fullRows locked) \<le> 4 \<longrightarrow>
            (\<exists>s'. gravity ?s' now r = Inr s'
               \<and> game s' = compacted locked \<and> tetromino s' = nextT s \<and> lastDrop s' = now
               \<and> gameOver s' = (collides (compacted locked) (nextT s) \<or> gameOver s)))"
    if t: "clock \<le> now \<and> dropIntervalMs s < 10000" for now r
  proof -
    have w: "wf_board (game ?s')" using assms(1) by simp
    have c: "collides (game ?s') (move (tetromino ?s') VEC_DOWN)"
      using n(1) by (simp add: m move_down_lowered)
    have d: "dropIntervalMs ?s' < to_ms (now - lastDrop ?s')"
      using to_ms_ten_seconds[of clock now] t by simp
    have k: "lockTetromino (game ?s') (tetromino ?s') = Inr locked" using lk(1) by simp
    have 1: "gravity ?s' now r = bindE (lock_event ?s' r) (\<lambda>s'. Inr (s'\<lparr>lastDrop := now\<rparr>))"
      by (rule gravity_locks[OF w c d])
    have 2: "\<exists>s'. gravity ?s' now r = Inr s'
               \<and> game s' = compacted locked \<and> tetromino s' = nextT s \<and> lastDrop s' = now
               \<and> gameOver s' = (collides (compacted locked) (nextT s) \<or> gameOver s)"
      if "length (fullRows locked) \<le> 4"
      using gravity_lock_result[OF w c d k lk(2) that, of r] by simp
    show ?thesis using 1 2 by blast
  qed
  have b4: "length (fullRows locked) \<le> 4"
    if "fullRows (game s) = [] \<and> length (blocks (tetromino s)) \<le> 4"
    using full_rows_after_lock[OF assms(1) _ lk(1)] that by (simp add: blocks_lowered)
  show ?thesis using g h lk(1) a o l b4 by blast
qed

theorem hard_drop_is_ghost_witness:
  "getGhost (game kick_state) (tetromino kick_state) = Some (Inr piece_I_landed)
   \<and> handle_input kick_state CH_space 0 =
       Some (Inr (kick_state\<lparr>tetromino := piece_I_landed, lastDrop := 0 - seconds 10\<rparr>))
   \<and> (\<exists>locked s'. lockTetromino (game kick_state) piece_I_landed = Inr locked
         \<and> cell locked 19 8 = \<lparr>cellColor = 11, occupied = True\<rparr>
         \<and> cell locked 16 8 = \<lparr>cellColor = 11, occupied = True\<rparr>
         \<and> cell locked 15 8 = emptyBlock
         \<and> gravity (kick_state\<lparr>tetromino := piece_I_landed, lastDrop := 0 - seconds 10\<rparr>) 1 3 = Inr s'
         \<and> game s' = locked \<and> tetromino s' = nextT kick_state \<and> lastDrop s' = 1
         \<and> \<not> gameOver s')"
proof -
  have w: "wf_board (game kick_state)" by (simp add: kick_state_sel wf_empty_board)
  have b: "blocks (tetromino kick_state) \<noteq> []" by (simp add: kick_state_sel piece_I_up_def)
  have c: "\<not> collides (game kick_state) (tetromino kick_state)"
    by (simp add: kick_state_sel collides_empty_board piece_I_up_def)
  have g: "getGhost (game kick_state) (tetromino kick_state) = Some (Inr piece_I_landed)"
    by (simp add: kick_state_sel I_up_ghost)
  have d: "(0::int) \<le> 1 \<and> dropIntervalMs kick_state < 10000" by (simp add: kick_state_def)
  have nx: "nextT kick_state = \<lparr>blocks = [Position 4 0, Position 5 0, Position 4 1, Position 5 1],
      colorPair = 10, shapeIdx = 0\<rparr>" and go0: "\<not> gameOver kick_state"
    by (simp_all add: kick_state_def)
  obtain locked where lk: "lockTetromino empty_board piece_I_landed = Inr locked"
    "rows locked = 20" "cols locked = 10"
    "\<forall>x y. 0 \<le> x \<and> x < 10 \<and> 0 \<le> y \<and> y < 20 \<longrightarrow>
        cell locked y x = (if Position x y \<in> set (blocks piece_I_landed)
                           then \<lparr>cellColor = 11, occupied = True\<rparr> else emptyBlock)"
    using landed_lock by blast
  have c1: "cell locked 19 8 = \<lparr>cellColor = 11, occupied = True\<rparr>"
    using lk(4)[rule_format, of 8 19] by (simp add: piece_I_landed_def)
  have c2: "cell locked 16 8 = \<lparr>cellColor = 11, occupied = True\<rparr>"
    using lk(4)[rule_format, of 8 16] by (simp add: piece_I_landed_def)
  have c3: "cell locked 15 8 = emptyBlock"
    using lk(4)[rule_format, of 8 15] by (simp add: piece_I_landed_def)
  have open_rows: "\<not> is_full locked y" if "0 \<le> y \<and> y < 20" for y
  proof -
    have "cell locked y 0 = emptyBlock" using lk(4)[rule_format, of 0 y] that by (simp add: piece_I_landed_def)
    then have "\<not> occupied (cell locked y 0)" by (simp add: emptyBlock_def)
    then show ?thesis by (auto simp: is_full_iff lk(3))
  qed
  have nf: "fullRows locked = []" using open_rows by (simp add: fullRows_empty_iff lk(2))
  have cm: "compacted locked = locked" by (simp add: compacted_def nf)
  have f: "cell locked 0 4 = emptyBlock" "cell locked 0 5 = emptyBlock"
    "cell locked 1 4 = emptyBlock" "cell locked 1 5 = emptyBlock"
    using lk(4)[rule_format, of 4 0] lk(4)[rule_format, of 5 0] lk(4)[rule_format, of 4 1] lk(4)[rule_format, of 5 1]
    by (simp_all add: piece_I_landed_def)
  have nc: "\<not> collides locked (nextT kick_state)"
    by (simp add: nx collides_def isInside_def lk(2,3) f emptyBlock_def)
  obtain ghost locked' where gh:
    "getGhost (game kick_state) (tetromino kick_state) = Some (Inr ghost)"
    "handle_input kick_state CH_space 0 =
          Some (Inr (kick_state\<lparr>tetromino := ghost, lastDrop := 0 - seconds 10\<rparr>))"
    "lockTetromino (game kick_state) ghost = Inr locked'"
    "\<forall>now r. 0 \<le> now \<and> dropIntervalMs kick_state < 10000 \<longrightarrow>
            gravity (kick_state\<lparr>tetromino := ghost, lastDrop := 0 - seconds 10\<rparr>) now r =
              bindE (lock_event (kick_state\<lparr>tetromino := ghost, lastDrop := 0 - seconds 10\<rparr>) r)
                (\<lambda>s'. Inr (s'\<lparr>lastDrop := now\<rparr>))
          \<and> (length (fullRows locked') \<le> 4 \<longrightarrow>
                (\<exists>s'. gravity (kick_state\<lparr>tetromino := ghost, lastDrop := 0 - seconds 10\<rparr>) now r = Inr s'
                   \<and> game s' = compacted locked' \<and> tetromino s' = nextT kick_state \<and> lastDrop s' = now
                   \<and> gameOver s' = (collides (compacted locked') (nextT kick_state) \<or> gameOver kick_state)))"
    using hard_drop_is_ghost[OF w b c, of 0] by blast
  have e: "ghost = piece_I_landed" using gh(1) g by simp
  have e': "locked' = locked" using gh(3) lk(1) by (simp add: e kick_state_sel)
  have len: "length (fullRows locked') \<le> 4" by (simp add: e' nf)
  obtain s' where s':
      "gravity (kick_state\<lparr>tetromino := ghost, lastDrop := 0 - seconds 10\<rparr>) 1 3 = Inr s'"
      "game s' = compacted locked'" "tetromino s' = nextT kick_state" "lastDrop s' = 1"
      "gameOver s' = (collides (compacted locked') (nextT kick_state) \<or> gameOver kick_state)"
    using gh(4)[rule_format, OF d, THEN conjunct2, rule_format, OF len, of 3] by blast
  have go: "\<not> gameOver s'" by (simp add: s'(5) e' cm nc go0)
  have gm: "game s' = locked" by (simp add: s'(2) e' cm)
  have lk': "lockTetromino (game kick_state) piece_I_landed = Inr locked"
    by (simp add: kick_state_sel lk(1))
  have h: "handle_input kick_state CH_space 0 =
       Some (Inr (kick_state\<lparr>tetromino := piece_I_landed, lastDrop := 0 - seconds 10\<rparr>))"
    using gh(2) by (simp only: e)
  have gr: "gravity (kick_state\<lparr>tetromino := piece_I_landed, lastDrop := 0 - seconds 10\<rparr>) 1 3 = Inr s'"
    using s'(1) by (simp only: e)
  have "\<exists>locked s'. lockTetromino (game kick_state) piece_I_landed = Inr locked
         \<and> cell locked 19 8 = \<lparr>cellColor = 11, occupied = True\<rparr>
         \<and> cell locked 16 8 = \<lparr>cellColor = 11, occupied = True\<rparr>
         \<and> cell locked 15 8 = emptyBlock
         \<and> gravity (kick_state\<lparr>tetromino := piece_I_landed, lastDrop := 0 - seconds 10\<rparr>) 1 3 = Inr s'
         \<and> game s' = locked \<and> tetromino s' = nextT kick_state \<and> lastDrop s' = 1
         \<and> \<not> gameOver s'"
    using lk' c1 c2 c3 gr gm s'(3,4) go by blast
  then show ?thesis using g h by (intro conjI)
qed

section \<open>What every session preserves\<close>

lemma newTetris_standard: "newTetris 20 10 = Inr empty_board"
  by (simp add: newTetris_def new_grid_def empty_board_def)

lemma fullRows_empty_board: "fullRows empty_board = []"
proof -
  have "\<not> is_full empty_board y" if "0 \<le> y \<and> y < rows empty_board" for y
  proof -
    have "\<not> occupied (cell empty_board y 0)"
      using that by (intro free_empty_board) (simp_all add: empty_board_def)
    then show ?thesis by (auto simp: is_full_iff empty_board_def)
  qed
  then show ?thesis by (simp add: fullRows_empty_iff)
qed

lemma below_seven: "i < 7 \<Longrightarrow> i = 0 \<or> i = 1 \<or> i = 2 \<or> i = 3 \<or> i = 4 \<or> i = 5 \<or> i = (6::nat)"
  by arith

lemma shapes_length: "i < 7 \<Longrightarrow> length (shapes ! i) = 4"
  by (drule below_seven) (auto simp: shapes_def)

lemma shapes_free: "i < 7 \<Longrightarrow> \<not> collides empty_board \<lparr>blocks = shapes ! i, colorPair = c, shapeIdx = k\<rparr>"
  by (drule below_seven) (auto simp: shapes_def collides_empty_board)

lemma length_shapes: "length shapes = 7"
  by (simp add: shapes_def)

lemma getNewTetromino_blocks:
  "length (blocks (snd (getNewTetromino r))) = 4"
  "\<not> collides empty_board (snd (getNewTetromino r))"
  by (simp_all add: getNewTetromino_def Let_def length_shapes shapes_length shapes_free)

lemma init_state_eq:
  "init_state st =
     Inr \<lparr>game = empty_board, gameOver = False, score = 0, level = 1, totalLines = 0,
          highscore = load_highscore (st_file st),
          tetromino = snd (getNewTetromino (st_rand1 st)),
          nextT = snd (getNewTetromino (st_rand2 st)),
          nextIdx = fst (getNewTetromino (st_rand2 st)),
          lastDrop = st_clock st, dropIntervalMs = 800\<rparr>"
  by (simp add: init_state_def newTetris_standard split_beta)

lemma init_inv:
  assumes "init_state st = Inr s"
  shows "game_inv (load_highscore (st_file st)) s" "\<not> gameOver s"
    "\<not> collides (game s) (tetromino s)" "score s = 0"
proof -
  have s: "s = \<lparr>game = empty_board, gameOver = False, score = 0, level = 1, totalLines = 0,
          highscore = load_highscore (st_file st),
          tetromino = snd (getNewTetromino (st_rand1 st)),
          nextT = snd (getNewTetromino (st_rand2 st)),
          nextIdx = fst (getNewTetromino (st_rand2 st)),
          lastDrop = st_clock st, dropIntervalMs = 800\<rparr>"
    using assms unfolding init_state_eq by simp
  show "game_inv (load_highscore (st_file st)) s"
    unfolding s game_inv_def
    by (simp add: wf_empty_board fullRows_empty_board getNewTetromino_blocks)
      (simp add: empty_board_def)
  show "\<not> gameOver s" "score s = 0" unfolding s by simp_all
  show "\<not> collides (game s) (tetromino s)" unfolding s by (simp add: getNewTetromino_blocks)
qed

lemma rotateT_ok:
  assumes "blocks t \<noteq> []"
  shows "\<exists>rot. rotateT t = Inr rot \<and> length (blocks rot) = length (blocks t)"
  using assms by (cases "blocks t") (auto simp: rotateT_def)

lemma first_free_cases:
  "first_free g cs t = t \<or> (first_free g cs t \<in> set cs \<and> \<not> collides g (first_free g cs t))"
proof (cases "filter (\<lambda>c. \<not> collides g c) cs")
  case Nil
  then show ?thesis by (simp add: first_free_def)
next
  case (Cons c rest)
  then have "c \<in> set (filter (\<lambda>c. \<not> collides g c) cs)" by simp
  then have "c \<in> set cs \<and> \<not> collides g c" by simp
  then show ?thesis by (simp add: first_free_def Cons)
qed

lemma length_shift: "length (blocks (shift t dx)) = length (blocks t)"
  by (simp add: shift_def)

lemma length_move: "length (blocks (move t d)) = length (blocks t)"
  by (simp add: move_def)

lemma hard_drop_lands:
  assumes "wf_board (game s)" "blocks (tetromino s) \<noteq> []" "\<not> collides (game s) (tetromino s)"
  shows "\<exists>m. handle_input s CH_space clock =
            Some (Inr (s\<lparr>tetromino := lowered (tetromino s) m, lastDrop := clock - seconds 10\<rparr>))
          \<and> getGhost (game s) (tetromino s) = Some (Inr (lowered (tetromino s) m))
          \<and> \<not> collides (game s) (lowered (tetromino s) m)
          \<and> collides (game s) (lowered (tetromino s) (Suc m))"
proof -
  obtain n where n: "collides (game s) (lowered (tetromino s) n)"
      "\<forall>k<n. \<not> collides (game s) (lowered (tetromino s) k)"
    using landing_exists[OF assms(2)] by blast
  have "n \<noteq> 0" using n(1) assms(3) by (auto intro: ccontr)
  then obtain m where m: "n = Suc m" by (cases n) auto
  have g: "getGhost (game s) (tetromino s) = Some (Inr (lowered (tetromino s) m))"
    by (simp add: getGhost_def ghost_loop_lands[OF assms(1) n] m move_up_lowered)
  have h: "handle_input s CH_space clock =
      Some (Inr (s\<lparr>tetromino := lowered (tetromino s) m, lastDrop := clock - seconds 10\<rparr>))"
    by (simp add: handle_input_def key_defs hard_drop_def drop_loop_lands[OF assms(1) n]
        m move_up_lowered)
  show ?thesis using g h n m by auto
qed

lemma game_inv_piece:
  assumes "game_inv c s" "length (blocks t) = 4"
  shows "game_inv c (s\<lparr>tetromino := t\<rparr>)" "game_inv c (s\<lparr>tetromino := t, lastDrop := d\<rparr>)"
  using assms by (simp_all add: game_inv_def)

lemma game_inv_flags:
  assumes "game_inv c s"
  shows "game_inv c (s\<lparr>gameOver := b\<rparr>)" "game_inv c (s\<lparr>lastDrop := d\<rparr>)"
  using assms by (simp_all add: game_inv_def)

lemma handle_input_inv:
  assumes "game_inv c s" "\<not> collides (game s) (tetromino s)"
  shows "\<exists>s1. handle_input s ch clock = Some (Inr s1) \<and> game_inv c s1
           \<and> \<not> collides (game s1) (tetromino s1) \<and> game s1 = game s"
proof -
  have w: "wf_board (game s)" and l: "length (blocks (tetromino s)) = 4"
    using assms(1) by (simp_all add: game_inv_def)
  have ne: "blocks (tetromino s) \<noteq> []" using l by auto
  consider (tr) d where "(ch = CH_a \<or> ch = KEY_LEFT) \<and> d = VEC_LEFT
         \<or> (ch = CH_d \<or> ch = KEY_RIGHT) \<and> d = VEC_RIGHT
         \<or> (ch = CH_s \<or> ch = KEY_DOWN) \<and> d = VEC_DOWN"
    | (rot) "ch = CH_w \<or> ch = KEY_UP"
    | (drop) "ch = CH_space"
    | (quit) "ch = CH_q"
    | (other) "ch \<noteq> CH_a" "ch \<noteq> KEY_LEFT" "ch \<noteq> CH_d" "ch \<noteq> KEY_RIGHT" "ch \<noteq> CH_s"
        "ch \<noteq> KEY_DOWN" "ch \<noteq> CH_w" "ch \<noteq> KEY_UP" "ch \<noteq> CH_space" "ch \<noteq> CH_q"
    by blast
  then show ?thesis
  proof cases
    case tr
    have h: "handle_input s ch clock =
        Some (Inr (if collides (game s) (move (tetromino s) d) then s
                   else s\<lparr>tetromino := move (tetromino s) d\<rparr>))"
      by (simp only: handle_input_translate[OF tr] translate_input_wf[OF w])
    show ?thesis
      unfolding h using assms game_inv_piece(1)[OF assms(1), of "move (tetromino s) d"] l
      by (simp add: length_move)
  next
    case rot
    obtain r where r: "rotateT (tetromino s) = Inr r" "length (blocks r) = 4"
      using rotateT_ok[OF ne] l by auto
    let ?t = "first_free (game s) [r, shift r 1, shift r (- 2)] (tetromino s)"
    have h: "handle_input s ch clock = Some (Inr (s\<lparr>tetromino := ?t\<rparr>))"
      by (simp only: handle_input_rotate[OF rot] rotate_input_wf[OF w r(1)])
    have t: "length (blocks ?t) = 4 \<and> \<not> collides (game s) ?t"
      using first_free_cases[of "game s" "[r, shift r 1, shift r (- 2)]" "tetromino s"]
        l r(2) assms(2) by (auto simp: length_shift)
    show ?thesis
      unfolding h using game_inv_piece(1)[OF assms(1), of ?t] t by simp
  next
    case drop
    obtain m where m: "handle_input s CH_space clock =
            Some (Inr (s\<lparr>tetromino := lowered (tetromino s) m, lastDrop := clock - seconds 10\<rparr>))"
          "\<not> collides (game s) (lowered (tetromino s) m)"
      using hard_drop_lands[OF w ne assms(2)] by blast
    show ?thesis
      unfolding drop m(1)
      using game_inv_piece(2)[OF assms(1), of "lowered (tetromino s) m"] m(2) l
      by (simp add: blocks_lowered)
  next
    case quit
    have h: "handle_input s ch clock = Some (Inr (s\<lparr>gameOver := True\<rparr>))"
      unfolding quit by (simp add: handle_input_def key_defs)
    show ?thesis unfolding h using game_inv_flags(1)[OF assms(1)] assms(2) by simp
  next
    case other
    then have h: "handle_input s ch clock = Some (Inr s)"
      by (simp add: handle_input_def)
    show ?thesis unfolding h using assms by simp
  qed
qed

lemma lineScores_nonneg:
  assumes "0 \<le> n" "n \<le> 4"
  shows "(0::int) \<le> [0, 40, 100, 300, 1200] ! nat n"
proof -
  have "nat n < 5" using assms by simp
  then have "nat n = 0 \<or> nat n = 1 \<or> nat n = 2 \<or> nat n = 3 \<or> nat n = 4" by arith
  then show ?thesis by auto
qed

lemma update_score_inv:
  assumes "game_inv c s" "0 < n" "n \<le> 4"
  shows "\<exists>s1. update_score s n = Inr s1 \<and> game_inv c s1 \<and> game s1 = game s
      \<and> tetromino s1 = tetromino s \<and> nextT s1 = nextT s \<and> gameOver s1 = gameOver s"
proof -
  define add where "add = [0, 40, 100, 300, 1200] ! nat n * level s"
  have n0: "0 \<le> n" using assms(2) by simp
  have lv: "1 \<le> level s" and tl: "0 \<le> totalLines s"
    and hs: "highscore s = c \<or> highscore s = score s \<and> c \<le> score s"
    using assms(1) by (simp_all add: game_inv_def)
  have a: "0 \<le> add" using lineScores_nonneg[OF n0 assms(3)] lv by (simp add: add_def)
  have t: "0 \<le> tdiv (totalLines s + n) 10" using tl n0 by (simp add: tdiv_nonneg)
  have h: "(if highscore s < score s + add then score s + add else highscore s) = c
      \<or> (if highscore s < score s + add then score s + add else highscore s) = score s + add
         \<and> c \<le> score s + add"
    using hs a by auto
  show ?thesis
    unfolding update_score_range[OF n0 assms(3)] add_def[symmetric]
    using assms(1) t tl n0 h by (simp add: game_inv_def)
qed

lemma lock_event_inv:
  assumes "game_inv c s"
  shows "\<exists>g1 n g2 s'. lockTetromino (game s) (tetromino s) = Inr g1
      \<and> clearLines g1 = Inr (n, g2) \<and> 0 \<le> n \<and> n \<le> 4
      \<and> lock_event s r = Inr s' \<and> game_inv c s'
      \<and> gameOver s' = (collides (game s') (tetromino s') \<or> gameOver s)"
proof -
  have w: "wf_board (game s)" and cpos: "0 < cols (game s)" and nf: "fullRows (game s) = []"
    and l: "length (blocks (tetromino s)) = 4" and ln: "length (blocks (nextT s)) = 4"
    using assms by (simp_all add: game_inv_def)
  obtain g1 where g1: "lockTetromino (game s) (tetromino s) = Inr g1" "cols g1 = cols (game s)"
      "wf_board g1"
    using lockTetromino_wf[OF w, of "tetromino s"] by metis
  define n where "n = int (length (fullRows g1))"
  have cl: "clearLines g1 = Inr (n, compacted g1)" by (simp add: n_def clearLines_wf[OF g1(3)])
  have n4: "0 \<le> n" "n \<le> 4" using full_rows_after_lock[OF w nf g1(1)] l by (simp_all add: n_def)
  have w2: "wf_board (compacted g1)" by (rule wf_compacted[OF g1(3)])
  have nf2: "fullRows (compacted g1) = []"
    using no_full_rows_compacted[OF g1(3)] cpos g1(2) by simp
  obtain s1 where s1: "(if 0 < n then update_score s n else Inr s) = Inr s1" "game_inv c s1"
      "nextT s1 = nextT s" "gameOver s1 = gameOver s"
    using update_score_inv[OF assms _ n4(2)] assms by (cases "0 < n") auto
  let ?s' = "(s1\<lparr>game := compacted g1, tetromino := nextT s1, nextT := snd (getNewTetromino r),
                nextIdx := fst (getNewTetromino r)\<rparr>)
           \<lparr>gameOver := (collides (compacted g1) (nextT s1) \<or> gameOver s1)\<rparr>"
  have le: "lock_event s r = Inr ?s'" by (rule lock_event_unfold[OF g1(1) cl w2 s1(1)])
  have inv: "game_inv c ?s'"
    using s1(2,3) w2 nf2 cpos g1(2) ln by (simp add: game_inv_def getNewTetromino_blocks)
  have go: "gameOver ?s' = (collides (game ?s') (tetromino ?s') \<or> gameOver s)"
    by (simp add: s1(4))
  show ?thesis using g1(1) cl n4 le inv go by blast
qed

lemma gravity_inv:
  assumes "game_inv c s" "\<not> collides (game s) (tetromino s)"
  shows "\<exists>s'. gravity s now r = Inr s' \<and> game_inv c s'
      \<and> (gameOver s' \<or> \<not> collides (game s') (tetromino s'))"
proof (cases "dropIntervalMs s < to_ms (now - lastDrop s)")
  case False
  then show ?thesis using assms by (simp add: gravity_def)
next
  case fire: True
  have w: "wf_board (game s)" and l: "length (blocks (tetromino s)) = 4"
    using assms(1) by (simp_all add: game_inv_def)
  show ?thesis
  proof (cases "collides (game s) (move (tetromino s) VEC_DOWN)")
    case True
    obtain s' where s': "lock_event s r = Inr s'" "game_inv c s'"
        "gameOver s' \<or> \<not> collides (game s') (tetromino s')"
      using lock_event_inv[OF assms(1), of r] by blast
    have "gravity s now r = Inr (s'\<lparr>lastDrop := now\<rparr>)"
      by (simp add: gravity_locks[OF w True fire] s'(1))
    then show ?thesis using s'(2,3) game_inv_flags(2)[OF s'(2), of now] by simp
  next
    case False
    have "gravity s now r = Inr (s\<lparr>tetromino := move (tetromino s) VEC_DOWN, lastDrop := now\<rparr>)"
      using fire False by (simp add: gravity_def checkCollision_wf[OF w] Let_def)
    then show ?thesis
      using game_inv_piece(2)[OF assms(1), of "move (tetromino s) VEC_DOWN" now] l False
      by (simp add: length_move)
  qed
qed

lemma step_inv:
  assumes "game_inv c s" "\<not> collides (game s) (tetromino s)"
  shows "\<exists>s'. step s i = Some (Inr s') \<and> game_inv c s'
      \<and> (gameOver s' \<or> \<not> collides (game s') (tetromino s'))"
proof -
  obtain s1 where s1: "handle_input s (in_ch i) (in_clock_key i) = Some (Inr s1)" "game_inv c s1"
      "\<not> collides (game s1) (tetromino s1)"
    using handle_input_inv[OF assms] by blast
  show ?thesis
    using gravity_inv[OF s1(2,3), of "in_clock i" "in_rand i"] by (simp add: step_def s1(1))
qed

lemma run_loop_inv:
  "\<lbrakk>game_inv c s; gameOver s \<or> \<not> collides (game s) (tetromino s)\<rbrakk> \<Longrightarrow>
     \<exists>s'. run_loop s inps = Some (Inr s') \<and> game_inv c s'
        \<and> (gameOver s' \<or> \<not> collides (game s') (tetromino s'))"
proof (induction inps arbitrary: s)
  case Nil
  then show ?case by simp
next
  case (Cons i inps)
  show ?case
  proof (cases "gameOver s")
    case True
    then show ?thesis using Cons.prems by simp
  next
    case False
    then obtain s1 where s1: "step s i = Some (Inr s1)" "game_inv c s1"
        "gameOver s1 \<or> \<not> collides (game s1) (tetromino s1)"
      using step_inv[of c s i] Cons.prems by blast
    show ?thesis using Cons.IH[OF s1(2,3)] False by (simp add: s1(1))
  qed
qed

lemma state_after_inv:
  "\<exists>s. state_after st inps = Some (Inr s) \<and> game_inv (load_highscore (st_file st)) s
      \<and> (gameOver s \<or> \<not> collides (game s) (tetromino s))"
proof -
  obtain s0 where s0: "init_state st = Inr s0" by (simp add: init_state_eq)
  show ?thesis
    using run_loop_inv[OF init_inv(1)[OF s0], of inps] init_inv(3)[OF s0]
    by (simp add: state_after_def s0)
qed

lemma getNewTetromino_0_1:
  "getNewTetromino 0 = (0, piece_O)" "getNewTetromino (Suc 0) = (1, piece_I)"
  by (simp_all add: getNewTetromino_def shapes_def PAIR_PIECE_BASE_def piece_O_def piece_I_def)

lemma init_start0: "init_state start0 = Inr state0"
  by (simp add: init_state_eq start0_def state0_def getNewTetromino_0_1 load_highscore_def)

lemma no_gravity_yet: "\<not> 800 < to_ms (90000000 - 0)"
  by (simp add: to_ms_def tdiv_def)

section \<open>The active piece never collides\<close>

lemma collides_list_all:
  "\<not> collides g t \<longleftrightarrow>
     list_all (\<lambda>b. isInside g b \<and> \<not> occupied (cell g (pos_y b) (pos_x b))) (blocks t)"
  by (auto simp: collides_def list_all_iff list_ex_iff)

lemma step_left_state0: "step state0 key_left = Some (Inr (state0\<lparr>tetromino := shift piece_O (- 1)\<rparr>))"
proof -
  have w: "wf_board (game state0)" by (simp add: state0_def wf_empty_board)
  have k: "(in_ch key_left = CH_a \<or> in_ch key_left = KEY_LEFT) \<and> VEC_LEFT = VEC_LEFT
         \<or> (in_ch key_left = CH_d \<or> in_ch key_left = KEY_RIGHT) \<and> VEC_LEFT = VEC_RIGHT
         \<or> (in_ch key_left = CH_s \<or> in_ch key_left = KEY_DOWN) \<and> VEC_LEFT = VEC_DOWN"
    by (simp add: key_left_def)
  have m: "move (tetromino state0) VEC_LEFT = shift piece_O (- 1)"
    by (simp add: state0_def move_def shift_def pos_add_def VEC_LEFT_def)
  have c: "\<not> collides (game state0) (shift piece_O (- 1))"
    by (simp add: state0_def collides_empty_board shift_def piece_O_def)
  have h: "handle_input state0 (in_ch key_left) (in_clock_key key_left)
      = Some (Inr (state0\<lparr>tetromino := shift piece_O (- 1)\<rparr>))"
    by (simp add: handle_input_translate[OF k] translate_input_wf[OF w] m c)
  have g: "gravity (state0\<lparr>tetromino := shift piece_O (- 1)\<rparr>) (in_clock key_left) (in_rand key_left)
      = Inr (state0\<lparr>tetromino := shift piece_O (- 1)\<rparr>)"
    using no_gravity_yet by (simp add: gravity_def state0_def key_left_def)
  show ?thesis by (simp add: step_def h g)
qed

lemma after_left: "state_after start0 [key_left] = Some (Inr (state0\<lparr>tetromino := shift piece_O (- 1)\<rparr>))"
  by (simp add: state_after_def init_start0 step_left_state0) (simp add: state0_def)

text \<open>
  Claim C9. In every state a session reaches at the head of the loop with \<^verbatim>\<open>gameOver\<close>
  not set, the active piece does not collide: its four blocks are on the board and on free
  cells. Input handling of any key returns a state in which this still holds (moves,
  rotation with wall kicks, soft and hard drop commit only such pieces), a whole iteration
  returns a state in which it holds or \<^verbatim>\<open>gameOver\<close> is set, and a lock event sets
  \<^verbatim>\<open>gameOver\<close> exactly when the piece it spawns collides.
\<close>

theorem active_piece_never_collides:
  assumes "state_after st inps = Some (Inr s)" and "\<not> gameOver s"
  shows "checkCollision (game s) (tetromino s) = Inr False
     \<and> length (blocks (tetromino s)) = 4
     \<and> list_all (\<lambda>b. isInside (game s) b \<and> \<not> occupied (cell (game s) (pos_y b) (pos_x b)))
          (blocks (tetromino s))
     \<and> (\<forall>ch clock. \<exists>s1. handle_input s ch clock = Some (Inr s1)
           \<and> checkCollision (game s1) (tetromino s1) = Inr False)
     \<and> (\<forall>i. \<exists>s'. step s i = Some (Inr s')
           \<and> (gameOver s' \<or> checkCollision (game s') (tetromino s') = Inr False))
     \<and> (\<forall>r. \<exists>s'. lock_event s r = Inr s'
           \<and> gameOver s' = (checkCollision (game s') (tetromino s') = Inr True))"
proof -
  let ?c = "load_highscore (st_file st)"
  have inv: "game_inv ?c s" and nc: "\<not> collides (game s) (tetromino s)"
    using state_after_inv[of st inps] assms by auto
  have w: "wf_board (game s)" and l: "length (blocks (tetromino s)) = 4"
    using inv by (simp_all add: game_inv_def)
  have 1: "checkCollision (game s) (tetromino s) = Inr False"
    by (simp add: checkCollision_wf[OF w] nc)
  have 3: "list_all (\<lambda>b. isInside (game s) b \<and> \<not> occupied (cell (game s) (pos_y b) (pos_x b)))
          (blocks (tetromino s))"
    using nc by (simp add: collides_list_all)
  have 4: "\<exists>s1. handle_input s ch clock = Some (Inr s1)
           \<and> checkCollision (game s1) (tetromino s1) = Inr False" for ch clock
  proof -
    obtain s1 where s1: "handle_input s ch clock = Some (Inr s1)" "game_inv ?c s1"
        "\<not> collides (game s1) (tetromino s1)"
      using handle_input_inv[OF inv nc] by blast
    have "wf_board (game s1)" using s1(2) by (simp add: game_inv_def)
    then show ?thesis using s1(1,3) by (simp add: checkCollision_wf)
  qed
  have 5: "\<exists>s'. step s i = Some (Inr s')
           \<and> (gameOver s' \<or> checkCollision (game s') (tetromino s') = Inr False)" for i
  proof -
    obtain s' where s': "step s i = Some (Inr s')" "game_inv ?c s'"
        "gameOver s' \<or> \<not> collides (game s') (tetromino s')"
      using step_inv[OF inv nc] by blast
    have "wf_board (game s')" using s'(2) by (simp add: game_inv_def)
    then show ?thesis using s'(1,3) by (auto simp: checkCollision_wf)
  qed
  have 6: "\<exists>s'. lock_event s r = Inr s'
           \<and> gameOver s' = (checkCollision (game s') (tetromino s') = Inr True)" for r
  proof -
    obtain s' where s': "lock_event s r = Inr s'" "game_inv ?c s'"
        "gameOver s' = (collides (game s') (tetromino s') \<or> gameOver s)"
      using lock_event_inv[OF inv, of r] by blast
    have "wf_board (game s')" using s'(2) by (simp add: game_inv_def)
    then show ?thesis using s'(1,3) assms(2) by (simp add: checkCollision_wf)
  qed
  show ?thesis using 1 l 3 4 5 6 by blast
qed

theorem active_piece_never_collides_witness:
  "checkCollision (game (state0\<lparr>tetromino := shift piece_O (- 1)\<rparr>))
     (tetromino (state0\<lparr>tetromino := shift piece_O (- 1)\<rparr>)) = Inr False
   \<and> length (blocks (tetromino (state0\<lparr>tetromino := shift piece_O (- 1)\<rparr>))) = 4"
proof -
  have n: "\<not> gameOver (state0\<lparr>tetromino := shift piece_O (- 1)\<rparr>)" by (simp add: state0_def)
  show ?thesis using active_piece_never_collides[OF after_left n] by blast
qed

section \<open>At most four rows are cleared\<close>

declare drop_loop.simps [code] ghost_loop.simps [code]

lemma fill_reached: "state_after start_fill fill_inputs = Some (Inr fill_state)"
  by code_simp

lemma fill_not_over: "\<not> gameOver fill_state"
  by (simp add: fill_state_def)

lemma fill_drop: "handle_input fill_state CH_space 0 = Some (Inr fill_dropped)"
  by code_simp

lemma fill_lock: "lockTetromino (game fill_dropped) (tetromino fill_dropped) = Inr fill_locked"
  by code_simp

lemma fill_clear: "clearLines fill_locked = Inr (1, fill_cleared)"
  by code_simp

lemma fill_step:
  "map_option (map_sum id (\<lambda>s. (game s, score s, totalLines s, gameOver s)))
     (step fill_state (key0 CH_space)) = Some (Inr (fill_cleared, 40, 1, False))"
  by code_simp

text \<open>
  Claim C10. In every state a session reaches with \<^verbatim>\<open>gameOver\<close> not set, after input
  handling the board has no full row and the active piece has four blocks; locking it and
  clearing lines returns a count from 0 to 4, the read of \<^verbatim>\<open>lineScores[cleared]\<close> is
  inside the array, and the lock event returns without error.
\<close>

theorem cleared_at_most_four:
  assumes "state_after st inps = Some (Inr s)" and "\<not> gameOver s"
    and "handle_input s ch clock = Some (Inr s1)"
  shows "fullRows (game s1) = [] \<and> length (blocks (tetromino s1)) = 4
     \<and> (\<exists>g1 n g2 v s'. lockTetromino (game s1) (tetromino s1) = Inr g1
           \<and> clearLines g1 = Inr (n, g2) \<and> 0 \<le> n \<and> n \<le> 4
           \<and> lineScores_at n = Inr v \<and> lock_event s1 r = Inr s')"
proof -
  let ?c = "load_highscore (st_file st)"
  have inv: "game_inv ?c s" and nc: "\<not> collides (game s) (tetromino s)"
    using state_after_inv[of st inps] assms(1,2) by auto
  have inv1: "game_inv ?c s1" using handle_input_inv[OF inv nc, of ch clock] assms(3) by auto
  obtain g1 n g2 s' where le: "lockTetromino (game s1) (tetromino s1) = Inr g1"
      "clearLines g1 = Inr (n, g2)" "0 \<le> n" "n \<le> 4" "lock_event s1 r = Inr s'"
    using lock_event_inv[OF inv1, of r] by blast
  have "lineScores_at n = Inr ([0, 40, 100, 300, 1200] ! nat n)"
    by (rule lineScores_at_range[OF le(3,4)])
  then show ?thesis using inv1 le by (auto simp: game_inv_def)
qed

theorem cleared_at_most_four_witness:
  "state_after start_fill fill_inputs = Some (Inr fill_state) \<and> \<not> gameOver fill_state
   \<and> handle_input fill_state CH_space 0 = Some (Inr fill_dropped)
   \<and> fullRows (game fill_dropped) = []
   \<and> lockTetromino (game fill_dropped) (tetromino fill_dropped) = Inr fill_locked
   \<and> clearLines fill_locked = Inr (1, fill_cleared)
   \<and> lineScores_at 1 = Inr 40
   \<and> (\<exists>s'. lock_event fill_dropped 0 = Inr s')
   \<and> map_option (map_sum id (\<lambda>s. (game s, score s, totalLines s, gameOver s)))
        (step fill_state (key0 CH_space)) = Some (Inr (fill_cleared, 40, 1, False))"
proof -
  obtain g1 n g2 v s' where t: "fullRows (game fill_dropped) = []"
      "lockTetromino (game fill_dropped) (tetromino fill_dropped) = Inr g1"
      "clearLines g1 = Inr (n, g2)" "0 \<le> n" "n \<le> 4" "lineScores_at n = Inr v"
      "lock_event fill_dropped 0 = Inr s'"
    using cleared_at_most_four[OF fill_reached fill_not_over fill_drop, of 0] by blast
  have g1: "g1 = fill_locked" using t(2) fill_lock by simp
  have n: "n = 1" using t(3) fill_clear by (simp add: g1)
  have v: "lineScores_at 1 = Inr 40" by (simp add: lineScores_at_def lineScores_def)
  have e: "\<exists>s'. lock_event fill_dropped 0 = Inr s'" using t(7) by blast
  show ?thesis
    using fill_reached fill_not_over fill_drop t(1) fill_lock fill_clear v e fill_step
    by (intro conjI)
qed

section \<open>Saving the high score\<close>

lemma gameLoop_cases:
  assumes "gameLoop st inps = Some (Inr (written, s))"
  shows "st_render_once st \<and> init_state st = Inr s \<and> written = None
     \<or> \<not> st_render_once st \<and> state_after st inps = Some (Inr s) \<and> gameOver s
         \<and> written = save_highscore s"
proof -
  obtain s0 where s0: "init_state st = Inr s0" by (simp add: init_state_eq)
  show ?thesis
  proof (cases "st_render_once st")
    case True
    then show ?thesis using assms by (simp add: gameLoop_def s0)
  next
    case False
    then show ?thesis
      using assms
      by (auto simp: gameLoop_def s0 state_after_def split: option.splits sum.splits if_splits)
  qed
qed

lemma step_quit_idle:
  assumes "lastDrop s = 0" "dropIntervalMs s = 800"
  shows "step s key_quit = Some (Inr (s\<lparr>gameOver := True\<rparr>))"
proof -
  have h: "handle_input s (in_ch key_quit) (in_clock_key key_quit) = Some (Inr (s\<lparr>gameOver := True\<rparr>))"
    by (simp add: handle_input_def key_quit_def key_defs)
  have g: "gravity (s\<lparr>gameOver := True\<rparr>) (in_clock key_quit) (in_rand key_quit)
      = Inr (s\<lparr>gameOver := True\<rparr>)"
    using no_gravity_yet by (simp add: gravity_def assms key_quit_def)
  show ?thesis by (simp add: step_def h g)
qed

lemma gameLoop_quit_at_once:
  assumes "init_state st = Inr s0" "\<not> st_render_once st" "\<not> gameOver s0"
    and "lastDrop s0 = 0" "dropIntervalMs s0 = 800"
  shows "gameLoop st [key_quit] =
     Some (Inr (save_highscore (s0\<lparr>gameOver := True\<rparr>), s0\<lparr>gameOver := True\<rparr>))"
  by (simp add: gameLoop_def assms(1,2,3) step_quit_idle[OF assms(4,5)])

lemma load_examples:
  "load_highscore (st_file start0) = 0" "load_highscore (st_file start_500) = 500"
  "load_highscore (st_file start_big) = 2147483647"
  by (simp_all add: load_highscore_def start0_def start_500_def start_big_def INT_MAX_def INT_MIN_def)

lemma init_examples:
  "init_state start_500 = Inr (state0\<lparr>highscore := 500\<rparr>)"
  "init_state start_big = Inr (state0\<lparr>highscore := 2147483647\<rparr>)"
  "init_state start_once = Inr state0"
proof -
  have l: "load_highscore (st_file start_once) = 0" by (simp add: load_highscore_def start_once_def)
  show "init_state start_500 = Inr (state0\<lparr>highscore := 500\<rparr>)"
    unfolding init_state_eq load_examples
    by (simp add: start_500_def state0_def getNewTetromino_0_1)
  show "init_state start_big = Inr (state0\<lparr>highscore := 2147483647\<rparr>)"
    unfolding init_state_eq load_examples
    by (simp add: start_big_def state0_def getNewTetromino_0_1)
  show "init_state start_once = Inr state0"
    unfolding init_state_eq l
    by (simp add: start_once_def state0_def getNewTetromino_0_1)
qed

lemma gameLoop_quit: "gameLoop start0 [key_quit] = Some (Inr (Some 0, state0\<lparr>gameOver := True\<rparr>))"
proof -
  have "gameLoop start0 [key_quit] =
     Some (Inr (save_highscore (state0\<lparr>gameOver := True\<rparr>), state0\<lparr>gameOver := True\<rparr>))"
    by (rule gameLoop_quit_at_once[OF init_start0]) (simp_all add: start0_def state0_def)
  then show ?thesis by (simp add: save_highscore_def state0_def)
qed

lemma gameLoop_quit_500:
  "gameLoop start_500 [key_quit] = Some (Inr (None, state0\<lparr>highscore := 500, gameOver := True\<rparr>))"
proof -
  have "gameLoop start_500 [key_quit] =
     Some (Inr (save_highscore (state0\<lparr>highscore := 500, gameOver := True\<rparr>),
                state0\<lparr>highscore := 500, gameOver := True\<rparr>))"
    using gameLoop_quit_at_once[OF init_examples(1)] by (simp add: start_500_def state0_def)
  then show ?thesis by (simp add: save_highscore_def state0_def)
qed

lemma gameLoop_quit_big:
  "gameLoop start_big [key_quit] =
     Some (Inr (None, state0\<lparr>highscore := 2147483647, gameOver := True\<rparr>))"
proof -
  have "gameLoop start_big [key_quit] =
     Some (Inr (save_highscore (state0\<lparr>highscore := 2147483647, gameOver := True\<rparr>),
                state0\<lparr>highscore := 2147483647, gameOver := True\<rparr>))"
    using gameLoop_quit_at_once[OF init_examples(2)] by (simp add: start_big_def state0_def)
  then show ?thesis by (simp add: save_highscore_def state0_def)
qed

text \<open>
  Claim C8, as amended. When a session that is not in render-once mode ends, the high-score
  file is written, with the final score, exactly when the final score is at least the value
  read at the start (so a tie writes too). That value is 0 when the file is missing, cannot
  be opened or does not start with a number, and it is the number in the file when that fits
  an \<^verbatim>\<open>int\<close>. In render-once mode the session ends with score 0 and nothing is written.
\<close>

theorem highscore_written_iff:
  assumes "gameLoop st inps = Some (Inr (written, s))"
  shows "(\<not> st_render_once st \<longrightarrow>
            gameOver s \<and> state_after st inps = Some (Inr s)
          \<and> written = (if load_highscore (st_file st) \<le> score s then Some (score s) else None))
       \<and> (st_render_once st \<longrightarrow> written = None \<and> score s = 0)
       \<and> (st_file st = NotOpen \<or> st_file st = Unparsable \<longrightarrow> load_highscore (st_file st) = 0)
       \<and> (\<forall>v. st_file st = Number v \<and> INT_MIN \<le> v \<and> v \<le> INT_MAX
              \<longrightarrow> load_highscore (st_file st) = v)"
proof (intro conjI impI allI)
  assume r: "\<not> st_render_once st"
  then have a: "state_after st inps = Some (Inr s)" "gameOver s" "written = save_highscore s"
    using gameLoop_cases[OF assms] by auto
  show "gameOver s" "state_after st inps = Some (Inr s)" by (rule a(2), rule a(1))
  have "game_inv (load_highscore (st_file st)) s"
    using state_after_inv[of st inps] a(1) by auto
  then have "highscore s = load_highscore (st_file st)
      \<or> highscore s = score s \<and> load_highscore (st_file st) \<le> score s"
    by (simp add: game_inv_def)
  then show "written = (if load_highscore (st_file st) \<le> score s then Some (score s) else None)"
    unfolding a(3) save_highscore_def by auto
next
  assume "st_render_once st"
  then have "init_state st = Inr s \<and> written = None" using gameLoop_cases[OF assms] by auto
  then show "written = None" "score s = 0" using init_inv(4)[of st s] by simp_all
next
  assume "st_file st = NotOpen \<or> st_file st = Unparsable"
  then show "load_highscore (st_file st) = 0" by (auto simp: load_highscore_def)
next
  fix v assume "st_file st = Number v \<and> INT_MIN \<le> v \<and> v \<le> INT_MAX"
  then show "load_highscore (st_file st) = v" by (simp add: load_highscore_def)
qed

theorem highscore_written_iff_witness:
  "gameLoop start0 [key_quit] = Some (Inr (Some 0, state0\<lparr>gameOver := True\<rparr>))
   \<and> Some (0::int) = (if load_highscore (st_file start0) \<le> score (state0\<lparr>gameOver := True\<rparr>)
                 then Some (score (state0\<lparr>gameOver := True\<rparr>)) else None)
   \<and> load_highscore (st_file start0) = 0
   \<and> gameLoop start_500 [key_quit] =
        Some (Inr (None, state0\<lparr>highscore := 500, gameOver := True\<rparr>))
   \<and> None = (if load_highscore (st_file start_500)
                   \<le> score (state0\<lparr>highscore := 500, gameOver := True\<rparr>)
              then Some (score (state0\<lparr>highscore := 500, gameOver := True\<rparr>)) else None)
   \<and> load_highscore (st_file start_500) = 500"
proof -
  have r: "\<not> st_render_once start0" "\<not> st_render_once start_500"
    and f: "st_file start0 = NotOpen \<or> st_file start0 = Unparsable"
    and n: "st_file start_500 = Number 500 \<and> INT_MIN \<le> 500 \<and> 500 \<le> INT_MAX"
    by (simp_all add: start0_def start_500_def INT_MIN_def INT_MAX_def)
  have a: "Some (0::int) = (if load_highscore (st_file start0) \<le> score (state0\<lparr>gameOver := True\<rparr>)
                 then Some (score (state0\<lparr>gameOver := True\<rparr>)) else None)"
      "load_highscore (st_file start0) = 0"
    using highscore_written_iff[OF gameLoop_quit] r(1) f by blast+
  have b: "None = (if load_highscore (st_file start_500)
                   \<le> score (state0\<lparr>highscore := 500, gameOver := True\<rparr>)
              then Some (score (state0\<lparr>highscore := 500, gameOver := True\<rparr>)) else None)"
      "load_highscore (st_file start_500) = 500"
    using highscore_written_iff[OF gameLoop_quit_500] r(2) n by blast+
  show ?thesis using gameLoop_quit gameLoop_quit_500 a b by (intro conjI)
qed

text \<open>
  The claim as stated fails twice. In render-once mode, with no high-score file, the value
  read is 0 and the final score is 0, a tie, and \<^verbatim>\<open>gameLoop\<close> returns without writing.
  And a file holding 99999999999 is unreadable, the read fails, but the value taken is the
  largest \<^verbatim>\<open>int\<close> and not 0: a session that ends with score 0 writes nothing.
\<close>

theorem highscore_counterexample:
  "gameLoop start_once [key_quit] = Some (Inr (None, state0))
   \<and> load_highscore (st_file start_once) \<le> score state0
   \<and> read_fails (st_file start_big) \<and> \<not> st_render_once start_big
   \<and> gameLoop start_big [key_quit] =
        Some (Inr (None, state0\<lparr>highscore := 2147483647, gameOver := True\<rparr>))
   \<and> 0 \<le> score (state0\<lparr>highscore := 2147483647, gameOver := True\<rparr>)
   \<and> load_highscore (st_file start_big) = 2147483647"
proof -
  have 1: "gameLoop start_once [key_quit] = Some (Inr (None, state0))"
    by (simp add: gameLoop_def init_examples(3)) (simp add: start_once_def)
  have 2: "load_highscore (st_file start_once) \<le> score state0"
    by (simp add: start_once_def load_highscore_def state0_def)
  have 3: "read_fails (st_file start_big)" "\<not> st_render_once start_big"
    by (simp_all add: start_big_def read_fails_def INT_MAX_def)
  have 4: "0 \<le> score (state0\<lparr>highscore := 2147483647, gameOver := True\<rparr>)"
    by (simp add: state0_def)
  show ?thesis using 1 2 3 gameLoop_quit_big 4 load_examples(3) by (intro conjI)
qed

end
